theory Spec2Isabelle
  imports Complex_Main
begin

section \<open>Strings and the random source\<close>

text \<open>
  JavaScript strings are modelled as \<^typ>\<open>string\<close>, one \<^typ>\<open>char\<close> per code unit
  (code units up to 255). A field of the request body is a string or is absent
  (\<^verbatim>\<open>undefined\<close>, here \<^const>\<open>None\<close>).
\<close>

text \<open>\<^verbatim>\<open>const chars = 'ABC...XYZabc...xyz0123456789'\<close> (server.js, line 82).\<close>

definition chars :: string where
  "chars = ''ABCDEFGHIJKLMNOPQRSTUVWXYZabcdefghijklmnopqrstuvwxyz0123456789''"

text \<open>
  \<^verbatim>\<open>String.prototype.charAt\<close>: the one-character string at the index, the empty
  string when the index is out of range.
\<close>

definition charAt :: "string \<Rightarrow> int \<Rightarrow> string" where
  "charAt s i = (if 0 \<le> i \<and> i < int (length s) then [s ! nat i] else [])"

text \<open>
  \<^verbatim>\<open>String.prototype.trim\<close> removes white space and line terminators from both
  ends. The code units of that class below 256 are TAB, LF, VT, FF, CR, SPACE and NBSP.
\<close>

definition whitespace :: "char list" where
  "whitespace = [CHR 0x09, CHR 0x0A, CHR 0x0B, CHR 0x0C, CHR 0x0D, CHR 0x20, CHR 0xA0]"

definition is_ws :: "char \<Rightarrow> bool" where
  "is_ws c = (c \<in> set whitespace)"

definition trim :: "string \<Rightarrow> string" where
  "trim s = rev (dropWhile is_ws (rev (dropWhile is_ws s)))"

text \<open>
  JavaScript numbers are doubles. A finite double is modelled by the real number it
  stands for, and an arithmetic operation by the exact operation followed by
  \<open>to_double\<close>, the rounding to the nearest double with ties to the even significand:
  \<open>ulp y\<close> is the distance between the doubles around \<open>y\<close> (52 fraction bits, least
  exponent \<open>-1022\<close>), and \<open>round_even\<close> rounds the significand, counted in that unit,
  to an integer. (Results beyond the largest double, which round to infinity, do not
  occur: the only product formed is below 64.)
\<close>

definition round_even :: "real \<Rightarrow> int" where
  "round_even q =
     (if q - of_int \<lfloor>q\<rfloor> < 1 / 2 then \<lfloor>q\<rfloor>
      else if 1 / 2 < q - of_int \<lfloor>q\<rfloor> then \<lfloor>q\<rfloor> + 1
      else if even \<lfloor>q\<rfloor> then \<lfloor>q\<rfloor> else \<lfloor>q\<rfloor> + 1)"

definition ulp :: "real \<Rightarrow> real" where
  "ulp y = 2 powr (of_int (max \<lfloor>log 2 \<bar>y\<bar>\<rfloor> (- 1022)) - 52)"

definition to_double :: "real \<Rightarrow> real" where
  "to_double y =
     (if y = 0 then 0 else sgn y * (of_int (round_even (\<bar>y\<bar> / ulp y)) * ulp y))"

definition is_double :: "real \<Rightarrow> bool" where
  "is_double x = (to_double x = x)"

text \<open>
  \<^verbatim>\<open>Math.random()\<close> reads a global generator. The generator is the sequence of the
  numbers it is going to return; a call returns the first one and advances. The
  contract of \<^verbatim>\<open>Math.random\<close> is that every number is a double in \<open>[0, 1)\<close>
  (\<open>rng_ok\<close>).
\<close>

type_synonym rng = "nat \<Rightarrow> real"

definition Math_random :: "rng \<Rightarrow> real \<times> rng" where
  "Math_random r = (r 0, \<lambda>n. r (Suc n))"

definition rng_ok :: "rng \<Rightarrow> bool" where
  "rng_ok r = (\<forall>n. is_double (r n) \<and> 0 \<le> r n \<and> r n < 1)"

text \<open>
  \<^verbatim>\<open>generateCode\<close> (server.js, lines 88-94): the \<^verbatim>\<open>for\<close> loop with its
  counter \<open>i\<close> and the accumulator \<open>shortCode\<close>. The product
  \<^verbatim>\<open>Math.random() * chars.length\<close> is a double product, \<^verbatim>\<open>Math.floor\<close> of a
  double is its floor.
\<close>

function generateCode_loop :: "nat \<Rightarrow> string \<Rightarrow> rng \<Rightarrow> string \<times> rng" where
  "generateCode_loop i shortCode r =
     (if i < 6 then
        generateCode_loop (i + 1)
          (shortCode @
             charAt chars \<lfloor>to_double (fst (Math_random r) * real (length chars))\<rfloor>)
          (snd (Math_random r))
      else (shortCode, r))"
  by pat_completeness auto
termination
  by (relation "measure (\<lambda>(i, shortCode, r). 6 - i)") auto

declare generateCode_loop.simps [simp del]

definition generateCode :: "rng \<Rightarrow> string \<times> rng" where
  "generateCode r = generateCode_loop 0 [] r"

section \<open>The Url collection\<close>

text \<open>
  The schema of models/url.js: \<^verbatim>\<open>fullUrl\<close>, \<^verbatim>\<open>shortUrl\<close> (unique index),
  \<^verbatim>\<open>user\<close>, \<^verbatim>\<open>clicks\<close> (default 0), \<^verbatim>\<open>createdAt\<close> (default
  \<^verbatim>\<open>Date.now\<close>), and the \<^verbatim>\<open>_id\<close> every document gets. Object ids and user
  ids are natural numbers, time is a natural number, and so is the click counter (no
  run of the server takes it to the limits of the store's number type).
\<close>

record url_doc =
  doc_id :: nat
  fullUrl :: string
  shortUrl :: string
  user :: nat
  clicks :: nat
  createdAt :: nat

text \<open>
  The collection is the list of its documents in insertion order, with the next
  fresh \<^verbatim>\<open>_id\<close>.
\<close>

record db =
  docs :: "url_doc list"
  next_id :: nat

definition empty_db :: db where
  "empty_db = \<lparr>docs = [], next_id = 0\<rparr>"

datatype store_error = DuplicateKey

text \<open>\<^verbatim>\<open>Url.findOne({ shortUrl: s })\<close>: the first document with that short code.\<close>

definition Url_findOne :: "db \<Rightarrow> string \<Rightarrow> url_doc option" where
  "Url_findOne d s = find (\<lambda>u. shortUrl u = s) (docs d)"

text \<open>\<^verbatim>\<open>Url.find({ user: uid })\<close>.\<close>

definition Url_find :: "db \<Rightarrow> nat \<Rightarrow> url_doc list" where
  "Url_find d uid = filter (\<lambda>u. user u = uid) (docs d)"

text \<open>
  \<^verbatim>\<open>Url.create({ fullUrl, shortUrl, user })\<close>: the schema defaults fill
  \<^verbatim>\<open>clicks\<close> and \<^verbatim>\<open>createdAt\<close>; the unique index on \<^verbatim>\<open>shortUrl\<close>
  rejects a second document with the same short code.
\<close>

definition new_doc :: "db \<Rightarrow> nat \<Rightarrow> string \<Rightarrow> string \<Rightarrow> nat \<Rightarrow> url_doc" where
  "new_doc d now full short uid =
     \<lparr>doc_id = next_id d, fullUrl = full, shortUrl = short, user = uid,
      clicks = 0, createdAt = now\<rparr>"

definition insert_doc :: "db \<Rightarrow> url_doc \<Rightarrow> db" where
  "insert_doc d u = d\<lparr>docs := docs d @ [u], next_id := Suc (next_id d)\<rparr>"

definition Url_create :: "db \<Rightarrow> nat \<Rightarrow> string \<Rightarrow> string \<Rightarrow> nat \<Rightarrow> store_error + db" where
  "Url_create d now full short uid =
     (if Url_findOne d short \<noteq> None then Inl DuplicateKey
      else Inr (insert_doc d (new_doc d now full short uid)))"

text \<open>
  \<^verbatim>\<open>Url.findByIdAndUpdate(id, { $inc: { clicks: 1 } })\<close>: one atomic update of the
  first document with that \<^verbatim>\<open>_id\<close>; nothing happens when there is none.
\<close>

fun inc_clicks :: "nat \<Rightarrow> url_doc list \<Rightarrow> url_doc list" where
  "inc_clicks i [] = []"
| "inc_clicks i (u # us) =
     (if doc_id u = i then u\<lparr>clicks := clicks u + 1\<rparr> # us else u # inc_clicks i us)"

definition Url_findByIdAndUpdate_inc :: "db \<Rightarrow> nat \<Rightarrow> db" where
  "Url_findByIdAndUpdate_inc d i = d\<lparr>docs := inc_clicks i (docs d)\<rparr>"

text \<open>
  \<^verbatim>\<open>Url.findOneAndDelete({ _id: id, user: uid })\<close>: removes the first document that
  matches both fields.
\<close>

fun delete_first :: "nat \<Rightarrow> nat \<Rightarrow> url_doc list \<Rightarrow> url_doc list" where
  "delete_first i uid [] = []"
| "delete_first i uid (u # us) =
     (if doc_id u = i \<and> user u = uid then us else u # delete_first i uid us)"

definition Url_findOneAndDelete :: "db \<Rightarrow> nat \<Rightarrow> nat \<Rightarrow> db" where
  "Url_findOneAndDelete d i uid = d\<lparr>docs := delete_first i uid (docs d)\<rparr>"

section \<open>The request handlers of server.js\<close>

text \<open>
  The routes \<^verbatim>\<open>/dashboard\<close>, \<^verbatim>\<open>/shorten\<close> and \<^verbatim>\<open>/delete/:id\<close> run their
  handlers behind \<^verbatim>\<open>requireAuth\<close>; the definitions below are the handlers as they
  run for a signed-in user with the id \<open>uid\<close>. The route \<^verbatim>\<open>/:short\<close> is registered
  last, after \<^verbatim>\<open>/\<close>, \<^verbatim>\<open>/dashboard\<close>, \<^verbatim>\<open>/login\<close>, \<^verbatim>\<open>/register\<close> and
  \<^verbatim>\<open>/logout\<close>; \<open>redirect\<close> is its handler, what runs once a request has reached it.
\<close>

text \<open>
  What a handler answers: \<^verbatim>\<open>res.redirect(path)\<close>, \<^verbatim>\<open>res.send(text)\<close>,
  \<^verbatim>\<open>res.render("dashboard", ...)\<close> with the user's documents,
  \<^verbatim>\<open>totalClicks\<close> and \<^verbatim>\<open>totalLinks\<close>. \<open>Unhandled e\<close> stands for an awaited
  store call that rejected with \<open>e\<close>: the handler catches nothing and sends no answer
  of its own.
\<close>

datatype response =
    Redirect string
  | Send string
  | Render_dashboard "url_doc list" nat nat
  | Unhandled store_error

text \<open>
  \<^verbatim>\<open>let short = custom && custom.trim() ? custom.trim() : null\<close> (line 97).
\<close>

definition custom_alias :: "string option \<Rightarrow> string option" where
  "custom_alias custom =
     (case custom of
        None \<Rightarrow> None
      | Some c \<Rightarrow> if c \<noteq> [] \<and> trim c \<noteq> [] then Some (trim c) else None)"

text \<open>
  The \<^verbatim>\<open>do ... while (exists && attempts < 5)\<close> loop (lines 103-108). It returns
  the loop variables \<open>short\<close>, \<open>attempts\<close> and \<open>exists\<close> and the generator as the loop
  leaves them.
\<close>

function generate_until_unique ::
  "db \<Rightarrow> nat \<Rightarrow> rng \<Rightarrow> string \<times> nat \<times> url_doc option \<times> rng" where
  "generate_until_unique d attempts r =
     (let short = fst (generateCode r);
          r' = snd (generateCode r);
          attempts' = attempts + 1;
          exists = Url_findOne d short
      in if exists \<noteq> None \<and> attempts' < 5 then generate_until_unique d attempts' r'
         else (short, attempts', exists, r'))"
  by pat_completeness auto
termination
  by (relation "measure (\<lambda>(d, attempts, r). 5 - attempts)") auto

declare generate_until_unique.simps [simp del]

text \<open>\<^verbatim>\<open>await Url.create(...); res.redirect('/dashboard')\<close> (lines 112-113).\<close>

definition create_and_redirect ::
  "db \<Rightarrow> nat \<Rightarrow> string \<Rightarrow> string \<Rightarrow> nat \<Rightarrow> response \<times> db" where
  "create_and_redirect d now full short uid =
     (case Url_create d now full short uid of
        Inl e \<Rightarrow> (Unhandled e, d)
      | Inr d' \<Rightarrow> (Redirect ''/dashboard'', d'))"

text \<open>
  \<^verbatim>\<open>POST /shorten\<close> (lines 80-114), for the authenticated user \<open>uid\<close> at time
  \<open>now\<close>, with the body fields \<open>fullUrl\<close> and \<open>custom\<close>. A field is falsy when it is
  absent or the empty string.
\<close>

definition shorten ::
  "nat \<Rightarrow> rng \<Rightarrow> db \<Rightarrow> string option \<Rightarrow> string option \<Rightarrow> nat \<Rightarrow> response \<times> rng \<times> db" where
  "shorten now r d fullUrl' custom uid =
     (case fullUrl' of
        None \<Rightarrow> (Redirect ''/dashboard'', r, d)
      | Some full \<Rightarrow>
          if full = [] then (Redirect ''/dashboard'', r, d)
          else
            (case custom_alias custom of
               Some short \<Rightarrow>
                 if Url_findOne d short \<noteq> None
                 then (Send ''Custom alias already taken'', r, d)
                 else (case create_and_redirect d now full short uid of
                         (resp, d') \<Rightarrow> (resp, r, d'))
             | None \<Rightarrow>
                 (case generate_until_unique d 0 r of
                    (short, attempts, exists, r') \<Rightarrow>
                      if exists \<noteq> None
                      then (Send ''Could not generate unique short URL, try again'', r', d)
                      else (case create_and_redirect d now full short uid of
                              (resp, d') \<Rightarrow> (resp, r', d')))))"

text \<open>\<^verbatim>\<open>POST /delete/:id\<close> (lines 117-121), for an \<open>id\<close> that is an object id.\<close>

definition delete_url :: "db \<Rightarrow> nat \<Rightarrow> nat \<Rightarrow> response \<times> db" where
  "delete_url d i uid = (Redirect ''/dashboard'', Url_findOneAndDelete d i uid)"

text \<open>
  \<^verbatim>\<open>GET /dashboard\<close> (lines 58-77): the user's documents, \<^verbatim>\<open>totalClicks\<close> and
  \<^verbatim>\<open>totalLinks\<close>. The collection is only read. (\<^verbatim>\<open>url.clicks || 0\<close> is
  \<^verbatim>\<open>url.clicks\<close> for a number; the values derived for display only, \<^verbatim>\<open>clickRate\<close>,
  \<^verbatim>\<open>host\<close> and \<^verbatim>\<open>shortDomain\<close>, are left out.)
\<close>

definition dashboard :: "db \<Rightarrow> nat \<Rightarrow> response" where
  "dashboard d uid =
     (let urls = Url_find d uid
      in Render_dashboard urls (foldl (\<lambda>sum url. sum + clicks url) 0 urls) (length urls))"

text \<open>\<^verbatim>\<open>GET /:short\<close> (lines 163-171).\<close>

definition redirect :: "db \<Rightarrow> string \<Rightarrow> response \<times> db" where
  "redirect d short =
     (case Url_findOne d short of
        None \<Rightarrow> (Send ''URL not found'', d)
      | Some url \<Rightarrow> (Redirect (fullUrl url), Url_findByIdAndUpdate_inc d (doc_id url)))"

text \<open>The four requests and their handlers, run one after the other.\<close>

datatype request =
    Shorten_req nat "string option" "string option" nat
  | Visit_req string
  | Delete_req nat nat
  | Dashboard_req nat

fun handle :: "request \<Rightarrow> rng \<times> db \<Rightarrow> response \<times> rng \<times> db" where
  "handle (Shorten_req now fullUrl' custom uid) (r, d) = shorten now r d fullUrl' custom uid"
| "handle (Visit_req short) (r, d) = (fst (redirect d short), r, snd (redirect d short))"
| "handle (Delete_req i uid) (r, d) = (fst (delete_url d i uid), r, snd (delete_url d i uid))"
| "handle (Dashboard_req uid) (r, d) = (dashboard d uid, r, d)"

text \<open>A list of requests, handled one after the other.\<close>

fun handle_all :: "request list \<Rightarrow> rng \<times> db \<Rightarrow> rng \<times> db" where
  "handle_all [] (r, d) = (r, d)"
| "handle_all (req # reqs) (r, d) = handle_all reqs (snd (handle req (r, d)))"

section \<open>Requests in flight at the same time\<close>

text \<open>
  A handler is an \<^verbatim>\<open>async\<close> function: between two \<^verbatim>\<open>await\<close>s it runs without
  interruption, and at every \<^verbatim>\<open>await\<close> the handlers of other requests may run.
  Each call of the store is one atomic operation of the collection. A request in
  flight is at its start, or waits for one store call, or is done. One step of a
  request performs the store call it waits for and runs the handler up to its next
  \<^verbatim>\<open>await\<close> (the first step runs the handler from its start to its first
  \<^verbatim>\<open>await\<close>).
\<close>

text \<open>
  The constructors carry the handler's local variables that are live at the
  \<^verbatim>\<open>await\<close>: for \<^verbatim>\<open>POST /shorten\<close> the time, \<open>fullUrl\<close>, \<open>short\<close>, (in the
  loop) \<open>attempts\<close>, and the user; for \<^verbatim>\<open>GET /:short\<close> the short code, then
  \<^verbatim>\<open>url._id\<close> and \<^verbatim>\<open>url.fullUrl\<close>.
\<close>

datatype task =
    Start request
  | Await_findOne_custom nat string string nat
  | Await_findOne_random nat string string nat nat
  | Await_create nat string string nat
  | Await_findOne_visit string
  | Await_inc nat string
  | Await_delete nat nat
  | Await_find nat
  | Done response

fun task_step :: "task \<Rightarrow> rng \<times> db \<Rightarrow> task \<times> rng \<times> db" where
  "task_step (Start (Shorten_req now fullUrl' custom uid)) (r, d) =
     (case fullUrl' of
        None \<Rightarrow> (Done (Redirect ''/dashboard''), r, d)
      | Some full \<Rightarrow>
          if full = [] then (Done (Redirect ''/dashboard''), r, d)
          else
            (case custom_alias custom of
               Some short \<Rightarrow> (Await_findOne_custom now full short uid, r, d)
             | None \<Rightarrow>
                 (Await_findOne_random now full (fst (generateCode r)) (0 + 1) uid,
                  snd (generateCode r), d)))"
| "task_step (Await_findOne_custom now full short uid) (r, d) =
     (if Url_findOne d short \<noteq> None
      then (Done (Send ''Custom alias already taken''), r, d)
      else (Await_create now full short uid, r, d))"
| "task_step (Await_findOne_random now full short attempts uid) (r, d) =
     (if Url_findOne d short \<noteq> None \<and> attempts < 5
      then (Await_findOne_random now full (fst (generateCode r)) (attempts + 1) uid,
            snd (generateCode r), d)
      else if Url_findOne d short \<noteq> None
      then (Done (Send ''Could not generate unique short URL, try again''), r, d)
      else (Await_create now full short uid, r, d))"
| "task_step (Await_create now full short uid) (r, d) =
     (Done (fst (create_and_redirect d now full short uid)), r,
      snd (create_and_redirect d now full short uid))"
| "task_step (Start (Visit_req short)) (r, d) = (Await_findOne_visit short, r, d)"
| "task_step (Await_findOne_visit short) (r, d) =
     (case Url_findOne d short of
        None \<Rightarrow> (Done (Send ''URL not found''), r, d)
      | Some url \<Rightarrow> (Await_inc (doc_id url) (fullUrl url), r, d))"
| "task_step (Await_inc i full) (r, d) =
     (Done (Redirect full), r, Url_findByIdAndUpdate_inc d i)"
| "task_step (Start (Delete_req i uid)) (r, d) = (Await_delete i uid, r, d)"
| "task_step (Await_delete i uid) (r, d) =
     (Done (Redirect ''/dashboard''), r, Url_findOneAndDelete d i uid)"
| "task_step (Start (Dashboard_req uid)) (r, d) = (Await_find uid, r, d)"
| "task_step (Await_find uid) (r, d) = (Done (dashboard d uid), r, d)"
| "task_step (Done resp) (r, d) = (Done resp, r, d)"

text \<open>
  The server: the generator, the collection and the requests in flight. A schedule
  is the list of the requests' positions in the order in which they take their
  steps; a position outside the pool does nothing.
\<close>

record server =
  random :: rng
  store :: db
  pool :: "task list"

definition step :: "nat \<Rightarrow> server \<Rightarrow> server" where
  "step i w =
     (if i < length (pool w) then
        (case task_step (pool w ! i) (random w, store w) of
           (t, r, d) \<Rightarrow> \<lparr>random = r, store = d, pool = (pool w)[i := t]\<rparr>)
      else w)"

definition run :: "nat list \<Rightarrow> server \<Rightarrow> server" where
  "run schedule w = foldl (\<lambda>w i. step i w) w schedule"

fun is_done :: "task \<Rightarrow> bool" where
  "is_done (Done resp) = True"
| "is_done t = False"

text \<open>One request running alone, for \<open>n\<close> steps.\<close>

fun run_alone :: "nat \<Rightarrow> task \<times> rng \<times> db \<Rightarrow> task \<times> rng \<times> db" where
  "run_alone 0 c = c"
| "run_alone (Suc n) (t, rd) = run_alone n (task_step t rd)"

section \<open>Vocabulary of the statements\<close>

text \<open>
  A request in flight that is going to call
  \<^verbatim>\<open>Url.findOneAndDelete({ _id: i, user: uid })\<close>.
\<close>

fun deletes :: "nat \<Rightarrow> nat \<Rightarrow> task \<Rightarrow> bool" where
  "deletes i uid (Start (Delete_req j v)) = (j = i \<and> v = uid)"
| "deletes i uid (Await_delete j v) = (j = i \<and> v = uid)"
| "deletes i uid t = False"

text \<open>
  In the collection \<open>d\<close> the short code \<open>code\<close> finds the link with the \<^verbatim>\<open>_id\<close>
  \<open>i\<close> of the user \<open>uid\<close> to the target \<open>full\<close>.
\<close>

definition links :: "db \<Rightarrow> string \<Rightarrow> string \<Rightarrow> nat \<Rightarrow> nat \<Rightarrow> bool" where
  "links d code full i uid =
     (map_option (\<lambda>v. (fullUrl v, doc_id v, user v)) (Url_findOne d code) =
        Some (full, i, uid))"

text \<open>
  The state of the collection that the store maintains: the \<^verbatim>\<open>_id\<close>s are
  pairwise different and older than the next fresh one.
\<close>

definition ids_ok :: "db \<Rightarrow> bool" where
  "ids_ok d = (distinct (map doc_id (docs d)) \<and> list_all (\<lambda>u. doc_id u < next_id d) (docs d))"

text \<open>No two documents share a short code.\<close>

definition codes_unique :: "db \<Rightarrow> bool" where
  "codes_unique d = distinct (map shortUrl (docs d))"

text \<open>The documents after \<open>n\<close> more clicks on the document with the \<^verbatim>\<open>_id\<close> \<open>i\<close>.\<close>

definition add_clicks :: "nat \<Rightarrow> nat \<Rightarrow> url_doc list \<Rightarrow> url_doc list" where
  "add_clicks i n us = map (\<lambda>u. if doc_id u = i then u\<lparr>clicks := clicks u + n\<rparr> else u) us"

text \<open>
  From the collection \<open>d\<close> to the collection \<open>d'\<close> no click count went down: every
  document of \<open>d'\<close> is a document of \<open>d\<close> (the same \<^verbatim>\<open>_id\<close>) with at least the
  clicks it had, or was created after \<open>d\<close>.
\<close>

definition no_decrease :: "db \<Rightarrow> db \<Rightarrow> bool" where
  "no_decrease d d' =
     list_all (\<lambda>u'. list_ex (\<lambda>u. doc_id u = doc_id u' \<and> clicks u \<le> clicks u') (docs d) \<or>
                    next_id d \<le> doc_id u') (docs d')"

text \<open>
  A visit of \<open>u\<close>'s short code after \<open>p\<close> of its steps, and the server in which the
  visits have taken \<open>ps\<close> steps each, starting from the collection \<open>d\<close>.
\<close>

definition visit_task :: "url_doc \<Rightarrow> nat \<Rightarrow> task" where
  "visit_task u p =
     (if p = 0 then Start (Visit_req (shortUrl u))
      else if p = 1 then Await_findOne_visit (shortUrl u)
      else if p = 2 then Await_inc (doc_id u) (fullUrl u)
      else Done (Redirect (fullUrl u)))"

definition visits_state :: "rng \<Rightarrow> db \<Rightarrow> url_doc \<Rightarrow> nat list \<Rightarrow> server" where
  "visits_state r d u ps =
     \<lparr>random = r,
      store = d\<lparr>docs := add_clicks (doc_id u) (length (filter (\<lambda>p. 3 \<le> p) ps)) (docs d)\<rparr>,
      pool = map (visit_task u) ps\<rparr>"

text \<open>A string of white space only (the empty string too).\<close>

definition blank :: "string \<Rightarrow> bool" where
  "blank s = list_all is_ws s"

text \<open>The generator after \<open>m\<close> calls of \<^verbatim>\<open>Math.random\<close>.\<close>

definition skip :: "nat \<Rightarrow> rng \<Rightarrow> rng" where
  "skip m r = (\<lambda>n. r (n + m))"

text \<open>The character that the \<open>k\<close>-th number of the generator selects.\<close>

definition pick :: "rng \<Rightarrow> nat \<Rightarrow> string" where
  "pick r k = charAt chars \<lfloor>to_double (r k * real (length chars))\<rfloor>"

text \<open>
  The \<open>k\<close>-th candidate (counted from 0) that successive calls of
  \<^verbatim>\<open>generateCode\<close> produce from the generator \<open>r\<close>.
\<close>

definition candidate :: "rng \<Rightarrow> nat \<Rightarrow> string" where
  "candidate r k = fst (generateCode (skip (6 * k) r))"

section \<open>Rounding to a double\<close>

lemma round_even_upper: "of_int (round_even q) \<le> q + 1 / 2"
  unfolding round_even_def by (auto simp: not_less) linarith+

lemma round_even_nonneg: "0 \<le> q \<Longrightarrow> 0 \<le> round_even q"
  unfolding round_even_def by auto

lemma round_even_of_int [simp]: "round_even (of_int m) = m"
  unfolding round_even_def by simp

lemma ulp_pos: "0 < ulp y"
  by (simp add: ulp_def)

lemma ulp_small:
  assumes "0 < y" "y < 64"
  shows "ulp y \<le> 2 powr (- 47)"
proof -
  have "log 2 y < 6"
    using assms by (subst log_less_iff) simp_all
  then have "\<lfloor>log 2 y\<rfloor> \<le> 5" by linarith
  then have "max \<lfloor>log 2 \<bar>y\<bar>\<rfloor> (- 1022) \<le> 5" using assms(1) by simp
  then have "real_of_int (max \<lfloor>log 2 \<bar>y\<bar>\<rfloor> (- 1022)) - 52 \<le> - 47" by linarith
  then show ?thesis unfolding ulp_def by (subst powr_le_cancel_iff) simp_all
qed

lemma to_double_upper:
  assumes "0 \<le> y"
  shows "0 \<le> to_double y \<and> to_double y \<le> y + ulp y / 2"
proof (cases "y = 0")
  case True
  then show ?thesis using ulp_pos[of 0] by (simp add: to_double_def)
next
  case False
  with assms have pos: "0 < y" by simp
  let ?q = "y / ulp y"
  have q: "0 \<le> ?q" using pos ulp_pos[of y] by simp
  have "of_int (round_even ?q) * ulp y \<le> (?q + 1 / 2) * ulp y"
    using round_even_upper[of ?q] ulp_pos[of y] by (intro mult_right_mono) simp_all
  also have "\<dots> = y + ulp y / 2" using ulp_pos[of y] by (simp add: field_simps)
  finally have up: "of_int (round_even ?q) * ulp y \<le> y + ulp y / 2" .
  have "0 \<le> real_of_int (round_even ?q) * ulp y"
    using round_even_nonneg[OF q] ulp_pos[of y] by simp
  with up pos show ?thesis by (simp add: to_double_def)
qed

lemma to_double_below_62:
  assumes "0 \<le> y" "y \<le> 62 - 62 * 2 powr (- 53)"
  shows "0 \<le> \<lfloor>to_double y\<rfloor> \<and> \<lfloor>to_double y\<rfloor> < 62"
proof (cases "y = 0")
  case True
  then show ?thesis by (simp add: to_double_def)
next
  case False
  with assms have pos: "0 < y" by simp
  have p53: "(2::real) powr (- 53) = 2 powr (- 47) / 64"
    by (simp add: powr_minus_divide)
  have "0 < (2::real) powr (- 47)" by simp
  with assms(2) p53 have lt: "y < 62 - 2 powr (- 47) / 2" by linarith
  then have "y < 64" using \<open>0 < (2::real) powr (- 47)\<close> by linarith
  from ulp_small[OF pos this] to_double_upper[OF assms(1)] lt
  have "0 \<le> to_double y" "to_double y < 62" by linarith+
  then show ?thesis by (simp add: floor_less_iff)
qed

lemma floor_log2:
  assumes "0 < y" "2 powr of_int e \<le> y" "y < 2 powr (of_int e + 1)"
  shows "\<lfloor>log 2 y\<rfloor> = e"
  using assms by (subst floor_log_eq_powr_iff) simp_all

lemma to_double_exact:
  assumes "0 < y" "2 powr of_int e \<le> y" "y < 2 powr (of_int e + 1)" "- 1022 \<le> e"
    and "y = of_int k * 2 powr (of_int e - 52)"
  shows "to_double y = y"
proof -
  have u: "ulp y = 2 powr (of_int e - 52)"
    using assms(1,4) floor_log2[OF assms(1-3)] by (simp add: ulp_def max_def)
  have "y / 2 powr (of_int e - 52) = of_int k"
    unfolding assms(5) by simp
  then have "\<bar>y\<bar> / ulp y = of_int k"
    using assms(1) unfolding u by simp
  then have "to_double y = of_int k * 2 powr (of_int e - 52)"
    using assms(1) unfolding to_double_def u by simp
  then show ?thesis by (simp only: assms(5)[symmetric])
qed

lemma to_double_0: "to_double 0 = 0"
  by (simp add: to_double_def)

lemma to_double_31: "to_double 31 = 31"
  by (rule to_double_exact[where e = 4 and k = "31 * 2 ^ 48"]) (simp_all add: powr_minus_divide)

lemma to_double_half: "to_double (1 / 2) = 1 / 2"
  by (rule to_double_exact[where e = "- 1" and k = "2 ^ 52"]) (simp_all add: powr_minus_divide)

lemma double_below_1:
  assumes "is_double x" "0 \<le> x" "x < 1"
  shows "x \<le> 1 - 2 powr (- 53)"
proof (cases "x < 1 / 2")
  case True
  have "(2::real) powr (- 53) \<le> 2 powr (- 1)" by (subst powr_le_cancel_iff) simp_all
  then have "(2::real) powr (- 53) \<le> 1 / 2" by (simp add: powr_minus_divide)
  with True show ?thesis by linarith
next
  case False
  then have half: "1 / 2 \<le> x" by simp
  then have pos: "0 < x" by linarith
  have "\<lfloor>log 2 x\<rfloor> = - 1"
    using half assms(3) pos by (intro floor_log2) (simp_all add: powr_minus_divide)
  then have u: "ulp x = 2 powr (- 53)" using pos by (simp add: ulp_def)
  let ?k = "round_even (\<bar>x\<bar> / ulp x)"
  from assms(1) pos have x: "x = of_int ?k * 2 powr (- 53)"
    by (simp add: is_double_def to_double_def u)
  have p: "(2::real) powr (- 53) = 1 / 2 ^ 53" by (simp add: powr_minus_divide)
  from x assms(3) have "of_int ?k * (1 / 2 ^ 53) < (1::real)" by (simp only: p)
  then have "real_of_int ?k < 2 ^ 53" by (simp add: field_simps)
  then have "real_of_int ?k < real_of_int (2 ^ 53)" by simp
  then have "?k < 2 ^ 53" by (simp only: of_int_less_iff)
  then have "?k \<le> 2 ^ 53 - 1" by simp
  then have "real_of_int ?k \<le> real_of_int (2 ^ 53 - 1)" by (simp only: of_int_le_iff)
  then have "real_of_int ?k \<le> 2 ^ 53 - 1" by simp
  then have "real_of_int ?k * (1 / 2 ^ 53) \<le> (2 ^ 53 - 1) * (1 / 2 ^ 53)"
    by (intro mult_right_mono) simp_all
  with x show ?thesis unfolding p by (simp add: field_simps)
qed

section \<open>The code generator\<close>

lemma skip_skip: "skip m (skip n r) = skip (n + m) r"
  by (simp add: skip_def fun_eq_iff ac_simps)

lemma skip_0: "skip 0 r = r"
  by (simp add: skip_def)

lemma length_chars: "length chars = 62"
  by (simp add: chars_def)

lemma generateCode_loop_eq:
  "i \<le> 6 \<Longrightarrow> generateCode_loop i s r = (s @ concat (map (pick r) [0..<6 - i]), skip (6 - i) r)"
proof (induction i s r rule: generateCode_loop.induct)
  case (1 i s r)
  show ?case
  proof (cases "i < 6")
    case True
    then have le: "i + 1 \<le> 6" by simp
    obtain m where m: "6 - i = Suc m" "6 - (i + 1) = m"
      using True by (cases "6 - i") auto
    let ?r = "snd (Math_random r)"
    let ?s = "s @ charAt chars \<lfloor>to_double (fst (Math_random r) * real (length chars))\<rfloor>"
    have unfold: "generateCode_loop i s r = generateCode_loop (i + 1) ?s ?r"
      using True by (subst generateCode_loop.simps) simp
    have ih: "generateCode_loop (i + 1) ?s ?r = (?s @ concat (map (pick ?r) [0..<m]), skip m ?r)"
      using "1.IH"[OF True le] by (simp only: m)
    have up: "[0..<Suc m] = 0 # map Suc [0..<m]"
      by (simp add: upt_conv_Cons map_Suc_upt del: upt_Suc)
    have pk: "pick ?r = (\<lambda>k. pick r (Suc k))"
      by (simp add: pick_def Math_random_def fun_eq_iff)
    have sk: "skip m ?r = skip (Suc m) r"
      by (simp add: skip_def Math_random_def)
    have p0: "charAt chars \<lfloor>to_double (fst (Math_random r) * real (length chars))\<rfloor> =
        pick r 0"
      by (simp add: pick_def Math_random_def)
    have "generateCode_loop i s r = (?s @ concat (map (pick ?r) [0..<m]), skip m ?r)"
      by (simp only: unfold ih)
    also have "\<dots> = (s @ concat (map (pick r) [0..<Suc m]), skip (Suc m) r)"
      by (simp add: up pk sk p0 comp_def del: upt_Suc)
    finally show ?thesis by (simp only: m)
  next
    case False
    with "1.prems" have "i = 6" by simp
    then show ?thesis
      by (subst generateCode_loop.simps) (simp add: skip_0)
  qed
qed

lemma generateCode_eq: "generateCode r = (concat (map (pick r) [0..<6]), skip 6 r)"
  by (simp add: generateCode_def generateCode_loop_eq)

lemma pick_ok:
  assumes "is_double (r k)" "0 \<le> r k" "r k < 1"
  shows "\<exists>c \<in> set chars. pick r k = [c]"
proof -
  let ?i = "\<lfloor>to_double (r k * real (length chars))\<rfloor>"
  from double_below_1[OF assms] have "r k * 62 \<le> 62 - 62 * 2 powr (- 53)"
    by (simp add: algebra_simps)
  moreover from assms(2) have "0 \<le> r k * 62" by simp
  ultimately have "0 \<le> \<lfloor>to_double (r k * 62)\<rfloor> \<and> \<lfloor>to_double (r k * 62)\<rfloor> < 62"
    by (intro to_double_below_62)
  then have i: "0 \<le> ?i" "?i < int (length chars)" by (simp_all add: length_chars)
  then have "nat ?i < length chars" by linarith
  then have "chars ! nat ?i \<in> set chars" by (rule nth_mem)
  with i show ?thesis by (simp add: pick_def charAt_def)
qed

lemma to_double_in_binade:
  assumes "0 < y" "2 powr of_int e \<le> y" "y < 2 powr (of_int e + 1)" "- 1022 \<le> e"
  shows "to_double y = of_int (round_even (y / 2 powr (of_int e - 52))) * 2 powr (of_int e - 52)"
proof -
  have u: "ulp y = 2 powr (of_int e - 52)"
    using assms(1,4) floor_log2[OF assms(1-3)] by (simp add: ulp_def max_def)
  show ?thesis using assms(1) unfolding to_double_def u by simp
qed

lemma round_up_example: "round_even (36028797018963967 / 4) = 9007199254740992"
  by (simp add: round_even_def)

text \<open>
  The product is rounded before the floor is taken: the double
  \<open>2324438517352514 / 2^52\<close> lies below \<open>32 / 62\<close>, its product with 62 rounds to 32,
  and the character drawn is the one at index 32.
\<close>

lemma pick_rounds_as_double:
  assumes "r k = 2324438517352514 / 2 ^ 52"
  shows "is_double (r k) \<and> pick r k = ''g''"
proof -
  have d: "is_double (r k)"
    unfolding is_double_def assms
    by (rule to_double_exact[where e = "- 1" and k = "2324438517352514 * 2"])
       (simp_all add: powr_minus_divide)
  have y: "r k * real (length chars) = 144115188075855868 / 2 ^ 52"
    by (simp add: assms length_chars)
  have "to_double (144115188075855868 / 2 ^ 52) =
      of_int (round_even (144115188075855868 / 2 ^ 52 / 2 powr (of_int 4 - 52))) *
        2 powr (of_int 4 - 52)"
    by (rule to_double_in_binade) simp_all
  also have "144115188075855868 / 2 ^ 52 / 2 powr (of_int 4 - 52) =
      (144115188075855868 / 16 :: real)"
    by (simp add: powr_minus_divide)
  also have "of_int (round_even (144115188075855868 / 16)) * 2 powr (of_int 4 - 52) = (32::real)"
    by (simp add: round_up_example powr_minus_divide)
  finally have "to_double (r k * real (length chars)) = 32" by (simp only: y)
  then have "pick r k = ''g''" by (simp add: pick_def charAt_def chars_def)
  with d show ?thesis by simp
qed

lemma concat_picks:
  assumes "\<forall>k \<in> set ks. \<exists>c \<in> set chars. pick r k = [c]"
  shows "length (concat (map (pick r) ks)) = length ks \<and> set (concat (map (pick r) ks)) \<subseteq> set chars"
  using assms by (induction ks) auto

lemma generateCode_shape:
  assumes "rng_ok r"
  shows "length (fst (generateCode r)) = 6 \<and> set (fst (generateCode r)) \<subseteq> set chars"
proof -
  have "\<forall>k \<in> set [0..<6]. \<exists>c \<in> set chars. pick r k = [c]"
    using assms pick_ok by (simp add: rng_ok_def)
  from concat_picks[OF this] show ?thesis
    by (simp add: generateCode_eq)
qed

lemma rng_ok_skip: "rng_ok r \<Longrightarrow> rng_ok (skip m r)"
  by (simp add: rng_ok_def skip_def)

lemma snd_generateCode: "snd (generateCode r) = skip 6 r"
  by (simp add: generateCode_eq)

lemma candidate_skip: "candidate (skip 6 r) k = candidate r (Suc k)"
  by (simp add: candidate_def skip_skip)

lemma candidate_0: "fst (generateCode r) = candidate r 0"
  by (simp add: candidate_def skip_0)

lemma generate_until_unique_free:
  "a + k < 5 \<Longrightarrow> \<forall>j < k. Url_findOne d (candidate r j) \<noteq> None \<Longrightarrow>
   Url_findOne d (candidate r k) = None \<Longrightarrow>
   generate_until_unique d a r = (candidate r k, a + k + 1, None, skip (6 * (k + 1)) r)"
proof (induction k arbitrary: a r)
  case 0
  then show ?case
    by (subst generate_until_unique.simps) (simp add: candidate_0 snd_generateCode Let_def)
next
  case (Suc k)
  have taken: "Url_findOne d (candidate r 0) \<noteq> None" using Suc.prems(2) by simp
  have "generate_until_unique d (a + 1) (skip 6 r) =
        (candidate (skip 6 r) k, (a + 1) + k + 1, None, skip (6 * (k + 1)) (skip 6 r))"
  proof (rule Suc.IH)
    show "a + 1 + k < 5" using Suc.prems(1) by simp
    show "\<forall>j<k. Url_findOne d (candidate (skip 6 r) j) \<noteq> None"
      using Suc.prems(2) by (simp add: candidate_skip)
    show "Url_findOne d (candidate (skip 6 r) k) = None"
      using Suc.prems(3) by (simp add: candidate_skip)
  qed
  moreover have "a + 1 < 5" using Suc.prems(1) by simp
  ultimately show ?case
    using taken
    by (subst generate_until_unique.simps)
       (simp add: candidate_0 snd_generateCode Let_def candidate_skip skip_skip)
qed

lemma generate_until_unique_taken:
  "a + n = 4 \<Longrightarrow> \<forall>j \<le> n. Url_findOne d (candidate r j) \<noteq> None \<Longrightarrow>
   generate_until_unique d a r =
     (candidate r n, 5, Url_findOne d (candidate r n), skip (6 * (n + 1)) r)"
proof (induction n arbitrary: a r)
  case 0
  then show ?case
    by (subst generate_until_unique.simps) (simp add: candidate_0 snd_generateCode Let_def)
next
  case (Suc n)
  have taken: "Url_findOne d (candidate r 0) \<noteq> None" using Suc.prems(2) by simp
  have "generate_until_unique d (a + 1) (skip 6 r) =
        (candidate (skip 6 r) n, 5, Url_findOne d (candidate (skip 6 r) n),
         skip (6 * (n + 1)) (skip 6 r))"
  proof (rule Suc.IH)
    show "a + 1 + n = 4" using Suc.prems(1) by simp
    show "\<forall>j\<le>n. Url_findOne d (candidate (skip 6 r) j) \<noteq> None"
      using Suc.prems(2) by (simp add: candidate_skip)
  qed
  moreover have "a + 1 < 5" using Suc.prems(1) by simp
  ultimately show ?case
    using taken
    by (subst generate_until_unique.simps)
       (simp add: candidate_0 snd_generateCode Let_def candidate_skip skip_skip)
qed

lemma upt_0_6: "[0..<6] = [0, 1, 2, 3, 4, 5::nat]"
  by code_simp

section \<open>The retry loop\<close>

lemma create_and_redirect_free:
  "Url_findOne d short = None \<Longrightarrow>
   create_and_redirect d now full short uid =
     (Redirect ''/dashboard'', insert_doc d (new_doc d now full short uid))"
  by (simp add: create_and_redirect_def Url_create_def)

lemma shorten_random_eq:
  assumes "full \<noteq> []" "custom_alias custom = None"
    and "generate_until_unique d 0 r = (short, a, e, r')"
  shows "shorten now r d (Some full) custom uid =
     (if e \<noteq> None then (Send ''Could not generate unique short URL, try again'', r', d)
      else (fst (create_and_redirect d now full short uid), r',
            snd (create_and_redirect d now full short uid)))"
  using assms by (simp add: shorten_def split: prod.splits)

lemma generate_until_unique_cases:
  obtains (free) k where "k < 5" "\<forall>j < k. Url_findOne d (candidate r j) \<noteq> None"
      "Url_findOne d (candidate r k) = None"
  | (taken) "\<forall>j < 5. Url_findOne d (candidate r j) \<noteq> None"
proof (cases "\<exists>k < 5. Url_findOne d (candidate r k) = None")
  case True
  then have "\<exists>k. (k < 5 \<and> Url_findOne d (candidate r k) = None) \<and>
      (\<forall>j < k. \<not> (j < 5 \<and> Url_findOne d (candidate r j) = None))"
    by (subst (asm) exists_least_iff) blast
  then obtain k where k: "k < 5" "Url_findOne d (candidate r k) = None"
    and least: "\<forall>j < k. \<not> (j < 5 \<and> Url_findOne d (candidate r j) = None)"
    by blast
  have "\<forall>j < k. Url_findOne d (candidate r j) \<noteq> None"
    using least k(1) by auto
  then show ?thesis using free k by blast
next
  case False
  then show ?thesis using taken by auto
qed

text \<open>
  Claim C2. On the random path the loop makes between one and five attempts, each one
  call of \<^verbatim>\<open>generateCode\<close> (six random numbers) followed by one
  \<^verbatim>\<open>findOne\<close>. When the first five candidates are all taken, the loop stops
  after the fifth attempt (30 random numbers used, no sixth candidate) and the handler
  answers "Could not generate unique short URL, try again" with the collection
  unchanged. When candidate \<open>k\<close> (\<open>k < 5\<close>) is the first free one, the loop stops after
  \<open>k + 1\<close> attempts and the document created carries exactly that candidate.
\<close>

theorem random_path_at_most_five_attempts:
  assumes "full \<noteq> []" and "custom_alias custom = None"
  shows
    "(case generate_until_unique d 0 r of
        (short, attempts, exists, r') \<Rightarrow>
          1 \<le> attempts \<and> attempts \<le> 5 \<and> r' = skip (6 * attempts) r \<and>
          short = candidate r (attempts - 1) \<and> exists = Url_findOne d short) \<and>
     ((\<forall>k < 5. Url_findOne d (candidate r k) \<noteq> None) \<longrightarrow>
        fst (snd (generate_until_unique d 0 r)) = 5 \<and>
        shorten now r d (Some full) custom uid =
          (Send ''Could not generate unique short URL, try again'', skip 30 r, d)) \<and>
     (\<forall>k < 5. (\<forall>j < k. Url_findOne d (candidate r j) \<noteq> None) \<longrightarrow>
        Url_findOne d (candidate r k) = None \<longrightarrow>
        fst (snd (generate_until_unique d 0 r)) = k + 1 \<and>
        shorten now r d (Some full) custom uid =
          (Redirect ''/dashboard'', skip (6 * (k + 1)) r,
           insert_doc d (new_doc d now full (candidate r k) uid)))"
proof (intro conjI allI impI)
  show "case generate_until_unique d 0 r of
        (short, attempts, exists, r') \<Rightarrow>
          1 \<le> attempts \<and> attempts \<le> 5 \<and> r' = skip (6 * attempts) r \<and>
          short = candidate r (attempts - 1) \<and> exists = Url_findOne d short"
  proof (cases rule: generate_until_unique_cases[of d r])
    case (free k)
    from generate_until_unique_free[of 0 k d r] free show ?thesis by simp
  next
    case taken
    from generate_until_unique_taken[of 0 4 d r] taken show ?thesis by simp
  qed
next
  assume all: "\<forall>k < 5. Url_findOne d (candidate r k) \<noteq> None"
  then have g: "generate_until_unique d 0 r =
      (candidate r 4, 5, Url_findOne d (candidate r 4), skip 30 r)"
    using generate_until_unique_taken[of 0 4 d r] by simp
  show "fst (snd (generate_until_unique d 0 r)) = 5" by (simp add: g)
  from all have "Url_findOne d (candidate r 4) \<noteq> None" by simp
  then show "shorten now r d (Some full) custom uid =
          (Send ''Could not generate unique short URL, try again'', skip 30 r, d)"
    using shorten_random_eq[OF assms g] by simp
next
  fix k :: nat
  assume k: "k < 5" and tk: "\<forall>j < k. Url_findOne d (candidate r j) \<noteq> None"
    and fr: "Url_findOne d (candidate r k) = None"
  have g: "generate_until_unique d 0 r = (candidate r k, k + 1, None, skip (6 * (k + 1)) r)"
    using generate_until_unique_free[of 0 k d r] k tk fr by simp
  show "fst (snd (generate_until_unique d 0 r)) = k + 1" by (simp add: g)
  show "shorten now r d (Some full) custom uid =
          (Redirect ''/dashboard'', skip (6 * (k + 1)) r,
           insert_doc d (new_doc d now full (candidate r k) uid))"
    using shorten_random_eq[OF assms g] create_and_redirect_free[OF fr] by simp
qed

theorem random_path_at_most_five_attempts_witness:
  "shorten 0 (\<lambda>n. 0)
     \<lparr>docs = [\<lparr>doc_id = 0, fullUrl = ''http://a.example'', shortUrl = ''AAAAAA'', user = 1,
               clicks = 0, createdAt = 0\<rparr>], next_id = 1\<rparr>
     (Some ''http://example.com'') None 7 =
   (Send ''Could not generate unique short URL, try again'', skip 30 (\<lambda>n. 0),
    \<lparr>docs = [\<lparr>doc_id = 0, fullUrl = ''http://a.example'', shortUrl = ''AAAAAA'', user = 1,
               clicks = 0, createdAt = 0\<rparr>], next_id = 1\<rparr>) \<and>
   shorten 5 (\<lambda>n. if n < 6 then 0 else 1 / 2)
     \<lparr>docs = [\<lparr>doc_id = 0, fullUrl = ''http://a.example'', shortUrl = ''AAAAAA'', user = 1,
               clicks = 0, createdAt = 0\<rparr>], next_id = 1\<rparr>
     (Some ''http://example.com'') None 7 =
   (Redirect ''/dashboard'', skip 12 (\<lambda>n. if n < 6 then 0 else 1 / 2),
    \<lparr>docs = [\<lparr>doc_id = 0, fullUrl = ''http://a.example'', shortUrl = ''AAAAAA'', user = 1,
               clicks = 0, createdAt = 0\<rparr>,
             \<lparr>doc_id = 1, fullUrl = ''http://example.com'', shortUrl = ''ffffff'', user = 7,
               clicks = 0, createdAt = 5\<rparr>], next_id = 2\<rparr>)"
proof -
  let ?d = "\<lparr>docs = [\<lparr>doc_id = 0, fullUrl = ''http://a.example'', shortUrl = ''AAAAAA'',
               user = 1, clicks = 0, createdAt = 0\<rparr>], next_id = 1\<rparr>"
  let ?r = "\<lambda>n::nat. if n < 6 then 0 else (1 / 2 :: real)"
  have full: "''http://example.com'' \<noteq> []" by simp
  have none: "custom_alias None = None" by (simp add: custom_alias_def)
  have c0: "candidate (\<lambda>n. 0) k = ''AAAAAA''" for k
    by (simp add: candidate_def skip_def generateCode_eq upt_0_6 pick_def charAt_def chars_def
        to_double_0 to_double_31)
  have taken: "\<forall>k < 5. Url_findOne ?d (candidate (\<lambda>n. 0) k) \<noteq> None"
    by (simp add: c0 Url_findOne_def)
  have r0: "candidate ?r 0 = ''AAAAAA''"
    by (simp add: candidate_def skip_def generateCode_eq upt_0_6 pick_def charAt_def chars_def
        to_double_0 to_double_31)
  have r1: "candidate ?r 1 = ''ffffff''"
    by (simp add: candidate_def skip_def generateCode_eq upt_0_6 pick_def charAt_def chars_def
        to_double_0 to_double_31)
  have r1': "candidate ?r (Suc 0) = ''ffffff''"
    using r1 by simp
  have first: "\<forall>j < 1. Url_findOne ?d (candidate ?r j) \<noteq> None"
    by (simp add: r0 Url_findOne_def)
  have second: "Url_findOne ?d (candidate ?r 1) = None"
    by (simp add: r1' Url_findOne_def)
  note T0 = random_path_at_most_five_attempts
            [where d = ?d and r = "\<lambda>n. 0" and now = 0 and uid = 7, OF full none]
  have A: "shorten 0 (\<lambda>n. 0) ?d (Some ''http://example.com'') None 7 =
      (Send ''Could not generate unique short URL, try again'', skip 30 (\<lambda>n. 0), ?d)"
    by (rule T0 [THEN conjunct2, THEN conjunct1, THEN mp, OF taken, THEN conjunct2])
  note T1 = random_path_at_most_five_attempts
            [where d = ?d and r = ?r and now = 5 and uid = 7, OF full none]
  have k: "(1::nat) < 5" by simp
  have "shorten 5 ?r ?d (Some ''http://example.com'') None 7 =
      (Redirect ''/dashboard'', skip (6 * (1 + 1)) ?r,
       insert_doc ?d (new_doc ?d 5 ''http://example.com'' (candidate ?r 1) 7))"
    by (rule T1 [THEN conjunct2, THEN conjunct2, rule_format, OF k first [rule_format] second,
                 THEN conjunct2])
  then have B: "shorten 5 ?r ?d (Some ''http://example.com'') None 7 =
      (Redirect ''/dashboard'', skip 12 ?r,
       \<lparr>docs = [\<lparr>doc_id = 0, fullUrl = ''http://a.example'', shortUrl = ''AAAAAA'', user = 1,
               clicks = 0, createdAt = 0\<rparr>,
             \<lparr>doc_id = 1, fullUrl = ''http://example.com'', shortUrl = ''ffffff'', user = 7,
               clicks = 0, createdAt = 5\<rparr>], next_id = 2\<rparr>)"
    by (simp add: r1' insert_doc_def new_doc_def)
  from A B show ?thesis by simp
qed

section \<open>Validation of the inputs of \<^verbatim>\<open>POST /shorten\<close>\<close>

text \<open>
  Claim C1, evaluated on the handler. The handler checks only that the trimmed alias is
  not blank and not taken: the one-character alias, the reserved word, the alias of 21
  characters and the alias with a space and an exclamation mark are all stored as short
  codes.
\<close>

theorem shorten_alias_unchecked:
  "shorten 0 r empty_db (Some ''http://example.com'') (Some ''a'') 7 =
     (Redirect ''/dashboard'', r,
      \<lparr>docs = [\<lparr>doc_id = 0, fullUrl = ''http://example.com'', shortUrl = ''a'', user = 7,
                clicks = 0, createdAt = 0\<rparr>], next_id = 1\<rparr>) \<and>
   shorten 0 r empty_db (Some ''http://example.com'') (Some ''admin'') 7 =
     (Redirect ''/dashboard'', r,
      \<lparr>docs = [\<lparr>doc_id = 0, fullUrl = ''http://example.com'', shortUrl = ''admin'', user = 7,
                clicks = 0, createdAt = 0\<rparr>], next_id = 1\<rparr>) \<and>
   shorten 0 r empty_db (Some ''http://example.com'') (Some ''abcdefghijklmnopqrstu'') 7 =
     (Redirect ''/dashboard'', r,
      \<lparr>docs = [\<lparr>doc_id = 0, fullUrl = ''http://example.com'',
                shortUrl = ''abcdefghijklmnopqrstu'', user = 7,
                clicks = 0, createdAt = 0\<rparr>], next_id = 1\<rparr>) \<and>
   shorten 0 r empty_db (Some ''http://example.com'') (Some ''bad alias!'') 7 =
     (Redirect ''/dashboard'', r,
      \<lparr>docs = [\<lparr>doc_id = 0, fullUrl = ''http://example.com'', shortUrl = ''bad alias!'',
                user = 7, clicks = 0, createdAt = 0\<rparr>], next_id = 1\<rparr>)"
  by (simp add: shorten_def custom_alias_def trim_def is_ws_def whitespace_def empty_db_def
      Url_findOne_def create_and_redirect_def Url_create_def insert_doc_def new_doc_def)

text \<open>
  Claim C4, evaluated on the handler. The handler checks only that \<^verbatim>\<open>fullUrl\<close>
  is not empty: a text that is no URL and a URL with the scheme \<^verbatim>\<open>ftp\<close> are
  stored as targets.
\<close>

theorem shorten_target_unchecked:
  "shorten 0 r empty_db (Some ''not a url'') (Some ''ab'') 7 =
     (Redirect ''/dashboard'', r,
      \<lparr>docs = [\<lparr>doc_id = 0, fullUrl = ''not a url'', shortUrl = ''ab'', user = 7,
                clicks = 0, createdAt = 0\<rparr>], next_id = 1\<rparr>) \<and>
   shorten 0 r empty_db (Some ''ftp://example.com/f'') (Some ''ab'') 7 =
     (Redirect ''/dashboard'', r,
      \<lparr>docs = [\<lparr>doc_id = 0, fullUrl = ''ftp://example.com/f'', shortUrl = ''ab'', user = 7,
                clicks = 0, createdAt = 0\<rparr>], next_id = 1\<rparr>)"
  by (simp add: shorten_def custom_alias_def trim_def is_ws_def whitespace_def empty_db_def
      Url_findOne_def create_and_redirect_def Url_create_def insert_doc_def new_doc_def)

section \<open>The store operations\<close>

lemma find_None_iff_codes: "(Url_findOne d s = None) = (s \<notin> shortUrl ` set (docs d))"
  by (auto simp: Url_findOne_def find_None_iff)

lemma findOne_Some_mem: "Url_findOne d s = Some u \<Longrightarrow> u \<in> set (docs d) \<and> shortUrl u = s"
  by (auto simp: Url_findOne_def find_Some_iff)

lemma find_unique:
  "distinct (map f xs) \<Longrightarrow> x \<in> set xs \<Longrightarrow> find (\<lambda>y. f y = f x) xs = Some x"
  by (induction xs) (auto simp: image_iff)

lemma findOne_unique:
  "codes_unique d \<Longrightarrow> u \<in> set (docs d) \<Longrightarrow> Url_findOne d (shortUrl u) = Some u"
  by (simp add: codes_unique_def Url_findOne_def find_unique)

lemma add_clicks_Nil [simp]: "add_clicks i n [] = []"
  by (simp add: add_clicks_def)

lemma add_clicks_Cons [simp]:
  "add_clicks i n (u # us) =
     (if doc_id u = i then u\<lparr>clicks := clicks u + n\<rparr> else u) # add_clicks i n us"
  by (simp add: add_clicks_def)

lemma add_clicks_absent: "i \<notin> doc_id ` set us \<Longrightarrow> add_clicks i n us = us"
  by (induction us) auto

lemma inc_clicks_eq:
  "distinct (map doc_id us) \<Longrightarrow> inc_clicks i us = add_clicks i 1 us"
  by (induction us) (auto simp: add_clicks_absent)

lemma map_doc_id_add_clicks [simp]: "map doc_id (add_clicks i n us) = map doc_id us"
  by (induction us) auto

lemma map_shortUrl_add_clicks [simp]: "map shortUrl (add_clicks i n us) = map shortUrl us"
  by (induction us) auto

lemma map_doc_id_inc_clicks [simp]: "map doc_id (inc_clicks i us) = map doc_id us"
  by (induction us) auto

lemma map_shortUrl_inc_clicks [simp]: "map shortUrl (inc_clicks i us) = map shortUrl us"
  by (induction us) auto

section \<open>The redirect handler\<close>

text \<open>
  Claim C3. In a collection with unique ids and unique short codes,
  \<^verbatim>\<open>GET /:short\<close> answers "URL not found" exactly when no document has that short
  code, and then leaves the collection as it is; when the document \<open>u\<close> has that short
  code, it redirects to \<open>u\<close>'s \<^verbatim>\<open>fullUrl\<close> and the collection afterwards is the old
  one with one more click on \<open>u\<close> and every other document unchanged.
\<close>

theorem redirect_not_found_or_counted:
  assumes "ids_ok d" and "codes_unique d"
  shows "((fst (redirect d short) = Send ''URL not found'') = (short \<notin> shortUrl ` set (docs d))) \<and>
         (short \<notin> shortUrl ` set (docs d) \<longrightarrow> snd (redirect d short) = d) \<and>
         (\<forall>u \<in> set (docs d). shortUrl u = short \<longrightarrow>
            redirect d short =
              (Redirect (fullUrl u), d\<lparr>docs := add_clicks (doc_id u) 1 (docs d)\<rparr>))"
proof (intro conjI ballI impI)
  show "(fst (redirect d short) = Send ''URL not found'') = (short \<notin> shortUrl ` set (docs d))"
  proof (cases "Url_findOne d short")
    case None
    moreover from None have "short \<notin> shortUrl ` set (docs d)"
      by (simp add: find_None_iff_codes)
    ultimately show ?thesis by (simp add: redirect_def)
  next
    case (Some u)
    moreover from Some have "short \<in> shortUrl ` set (docs d)"
      using findOne_Some_mem by force
    ultimately show ?thesis by (simp add: redirect_def)
  qed
next
  assume "short \<notin> shortUrl ` set (docs d)"
  then have "Url_findOne d short = None" by (simp add: find_None_iff_codes)
  then show "snd (redirect d short) = d" by (simp add: redirect_def)
next
  fix u assume u: "u \<in> set (docs d)" "shortUrl u = short"
  then have "Url_findOne d short = Some u"
    using findOne_unique[OF assms(2) u(1)] by simp
  moreover have "inc_clicks (doc_id u) (docs d) = add_clicks (doc_id u) 1 (docs d)"
    using assms(1) by (simp add: ids_ok_def inc_clicks_eq)
  ultimately show "redirect d short =
      (Redirect (fullUrl u), d\<lparr>docs := add_clicks (doc_id u) 1 (docs d)\<rparr>)"
    by (simp add: redirect_def Url_findByIdAndUpdate_inc_def)
qed

theorem redirect_not_found_or_counted_witness:
  "redirect \<lparr>docs = [\<lparr>doc_id = 0, fullUrl = ''http://a.example'', shortUrl = ''AAAAAA'', user = 1,
                      clicks = 3, createdAt = 0\<rparr>,
                    \<lparr>doc_id = 1, fullUrl = ''http://b.example'', shortUrl = ''promo'', user = 2,
                      clicks = 8, createdAt = 4\<rparr>], next_id = 2\<rparr> ''promo'' =
     (Redirect ''http://b.example'',
      \<lparr>docs = [\<lparr>doc_id = 0, fullUrl = ''http://a.example'', shortUrl = ''AAAAAA'', user = 1,
                clicks = 3, createdAt = 0\<rparr>,
              \<lparr>doc_id = 1, fullUrl = ''http://b.example'', shortUrl = ''promo'', user = 2,
                clicks = 9, createdAt = 4\<rparr>], next_id = 2\<rparr>) \<and>
   redirect \<lparr>docs = [\<lparr>doc_id = 0, fullUrl = ''http://a.example'', shortUrl = ''AAAAAA'', user = 1,
                      clicks = 3, createdAt = 0\<rparr>,
                    \<lparr>doc_id = 1, fullUrl = ''http://b.example'', shortUrl = ''promo'', user = 2,
                      clicks = 8, createdAt = 4\<rparr>], next_id = 2\<rparr> ''nosuch'' =
     (Send ''URL not found'',
      \<lparr>docs = [\<lparr>doc_id = 0, fullUrl = ''http://a.example'', shortUrl = ''AAAAAA'', user = 1,
                clicks = 3, createdAt = 0\<rparr>,
              \<lparr>doc_id = 1, fullUrl = ''http://b.example'', shortUrl = ''promo'', user = 2,
                clicks = 8, createdAt = 4\<rparr>], next_id = 2\<rparr>)"
proof -
  let ?a = "\<lparr>doc_id = 0, fullUrl = ''http://a.example'', shortUrl = ''AAAAAA'', user = 1,
             clicks = 3, createdAt = 0\<rparr>"
  let ?b = "\<lparr>doc_id = 1, fullUrl = ''http://b.example'', shortUrl = ''promo'', user = 2,
             clicks = 8, createdAt = 4\<rparr>"
  let ?d = "\<lparr>docs = [?a, ?b], next_id = 2\<rparr>"
  have ids: "ids_ok ?d" by (simp add: ids_ok_def)
  have codes: "codes_unique ?d" by (simp add: codes_unique_def)
  note T = redirect_not_found_or_counted [OF ids codes]
  have mem: "?b \<in> set (docs ?d)" by simp
  have code: "shortUrl ?b = ''promo''" by simp
  have "redirect ?d ''promo'' =
      (Redirect (fullUrl ?b), ?d\<lparr>docs := add_clicks (doc_id ?b) 1 (docs ?d)\<rparr>)"
    by (rule T [where short = "''promo''", THEN conjunct2, THEN conjunct2, rule_format,
                OF mem code])
  then have A: "redirect ?d ''promo'' =
      (Redirect ''http://b.example'', \<lparr>docs = [?a, ?b\<lparr>clicks := 9\<rparr>], next_id = 2\<rparr>)"
    by simp
  have absent: "''nosuch'' \<notin> shortUrl ` set (docs ?d)" by simp
  have B1: "fst (redirect ?d ''nosuch'') = Send ''URL not found''"
    using T [where short = "''nosuch''", THEN conjunct1] absent by simp
  have B2: "snd (redirect ?d ''nosuch'') = ?d"
    by (rule T [where short = "''nosuch''", THEN conjunct2, THEN conjunct1, THEN mp, OF absent])
  have B: "redirect ?d ''nosuch'' = (Send ''URL not found'', ?d)"
    using B1 B2 by (simp add: prod_eq_iff)
  from A B show ?thesis by simp
qed

section \<open>Trimming\<close>

lemma rev_dropWhile_split:
  "xs = rev (dropWhile P (rev xs)) @ rev (takeWhile P (rev xs))"
proof -
  have "rev xs = takeWhile P (rev xs) @ dropWhile P (rev xs)"
    by (simp only: takeWhile_dropWhile_id)
  then have "rev (rev xs) = rev (takeWhile P (rev xs) @ dropWhile P (rev xs))"
    by (rule arg_cong)
  then show ?thesis by (simp only: rev_rev_ident rev_append)
qed

lemma dropWhile_all_iff: "(\<forall>x \<in> set (dropWhile P xs). P x) = (dropWhile P xs = [])"
proof (cases "dropWhile P xs = []")
  case True
  show ?thesis unfolding True by simp
next
  case False
  then have "\<not> P (hd (dropWhile P xs))" by (rule hd_dropWhile)
  moreover from False have "hd (dropWhile P xs) \<in> set (dropWhile P xs)" by simp
  ultimately show ?thesis using False by blast
qed

lemma trim_Nil [simp]: "trim [] = []"
  by (simp add: trim_def)

lemma trim_Nil_iff: "(trim s = []) = blank s"
proof -
  let ?t = "dropWhile is_ws s"
  have "(trim s = []) = (dropWhile is_ws (rev ?t) = [])" by (simp add: trim_def)
  also have "\<dots> = (\<forall>x \<in> set ?t. is_ws x)" by (simp add: dropWhile_eq_Nil_conv)
  also have "\<dots> = (?t = [])" by (rule dropWhile_all_iff)
  also have "\<dots> = blank s" by (simp add: dropWhile_eq_Nil_conv blank_def list_all_iff)
  finally show ?thesis .
qed

lemma trim_split: "dropWhile is_ws s = trim s @ rev (takeWhile is_ws (rev (dropWhile is_ws s)))"
  unfolding trim_def by (rule rev_dropWhile_split)

lemma blank_takeWhile: "blank (takeWhile is_ws s)"
  by (auto simp: blank_def list_all_iff dest: set_takeWhileD)

lemma blank_rev: "blank (rev s) = blank s"
  by (simp add: blank_def list_all_iff)

lemma trim_decomp: "\<exists>pre post. s = pre @ trim s @ post \<and> blank pre \<and> blank post"
proof -
  let ?pre = "takeWhile is_ws s"
  let ?post = "rev (takeWhile is_ws (rev (dropWhile is_ws s)))"
  have "s = ?pre @ dropWhile is_ws s" by simp
  also have "dropWhile is_ws s = trim s @ ?post" by (rule trim_split)
  finally have "s = ?pre @ trim s @ ?post" .
  moreover have "blank ?pre" by (rule blank_takeWhile)
  moreover have "blank ?post" by (simp only: blank_rev blank_takeWhile)
  ultimately show ?thesis by blast
qed

lemma trim_ends:
  assumes "trim s \<noteq> []"
  shows "\<not> is_ws (hd (trim s)) \<and> \<not> is_ws (last (trim s))"
proof -
  let ?t = "dropWhile is_ws s"
  from assms have ne: "dropWhile is_ws (rev ?t) \<noteq> []" by (simp add: trim_def)
  then have "\<not> is_ws (hd (dropWhile is_ws (rev ?t)))" by (rule hd_dropWhile)
  then have l: "\<not> is_ws (last (trim s))" using ne by (simp add: trim_def last_rev)
  have t: "?t = trim s @ rev (takeWhile is_ws (rev ?t))" by (rule trim_split)
  then have "?t \<noteq> []" using assms by (metis Nil_is_append_conv)
  then have "\<not> is_ws (hd ?t)" by (rule hd_dropWhile)
  moreover have "hd ?t = hd (trim s)" using assms by (subst t) simp
  ultimately show ?thesis using l by simp
qed

lemma trim_id:
  assumes "x \<noteq> []" "\<not> is_ws (hd x)" "\<not> is_ws (last x)"
  shows "trim x = x"
proof -
  from assms(1,2) have "dropWhile is_ws x = x" by (cases x) auto
  moreover have "dropWhile is_ws (rev x) = rev x"
  proof -
    from assms(1) have "x = butlast x @ [last x]" by simp
    then have r: "rev x = last x # rev (butlast x)" by (metis rev_eq_Cons_iff rev_rev_ident)
    show ?thesis unfolding r using assms(3) by simp
  qed
  ultimately show ?thesis by (simp add: trim_def)
qed

lemma trim_trim: "trim (trim s) = trim s"
proof (cases "trim s = []")
  case True
  then show ?thesis by simp
next
  case False
  then show ?thesis using trim_ends[OF False] by (simp add: trim_id)
qed

lemma custom_alias_Some: "custom_alias (Some c) = (if blank c then None else Some (trim c))"
proof -
  have "blank []" by (simp add: blank_def)
  then show ?thesis by (auto simp: custom_alias_def trim_Nil_iff)
qed

lemma custom_alias_None: "custom_alias None = None"
  by (simp add: custom_alias_def)

lemma custom_alias_fixed:
  assumes "custom_alias custom = Some short"
  shows "custom_alias (Some short) = Some short"
proof -
  from assms obtain c where c: "custom = Some c" "\<not> blank c" "short = trim c"
    by (cases custom) (auto simp: custom_alias_Some custom_alias_None split: if_splits)
  then have "\<not> blank short" using trim_Nil_iff[of short] trim_Nil_iff[of c]
    by (simp add: trim_trim)
  then show ?thesis by (simp add: custom_alias_Some c(3) trim_trim)
qed

lemma chars_not_ws: "c \<in> set chars \<Longrightarrow> \<not> is_ws c"
  by (auto simp: chars_def is_ws_def whitespace_def)

lemma custom_alias_code:
  assumes "length s = 6" "set s \<subseteq> set chars"
  shows "custom_alias (Some s) = Some s"
proof -
  from assms(1) have ne: "s \<noteq> []" by auto
  then have "hd s \<in> set s" "last s \<in> set s" by simp_all
  with assms(2) have "\<not> is_ws (hd s)" "\<not> is_ws (last s)"
    using chars_not_ws by auto
  with ne have t: "trim s = s" by (simp add: trim_id)
  with ne have "\<not> blank s" using trim_Nil_iff[of s] by simp
  with t show ?thesis by (simp add: custom_alias_Some)
qed

section \<open>The outcomes of \<^verbatim>\<open>POST /shorten\<close>\<close>

lemma findOne_insert_doc:
  "Url_findOne (insert_doc d u) s =
     (case Url_findOne d s of
        None \<Rightarrow> if shortUrl u = s then Some u else None
      | Some v \<Rightarrow> Some v)"
proof -
  have "find P (xs @ [x]) = (case find P xs of None \<Rightarrow> if P x then Some x else None
                              | Some v \<Rightarrow> Some v)" for P and xs :: "url_doc list" and x
    by (induction xs) auto
  then show ?thesis by (simp add: Url_findOne_def insert_doc_def)
qed

lemma shortUrl_new_doc [simp]: "shortUrl (new_doc d now full short uid) = short"
  by (simp add: new_doc_def)

lemma fullUrl_new_doc [simp]: "fullUrl (new_doc d now full short uid) = full"
  by (simp add: new_doc_def)

lemma clicks_new_doc [simp]: "clicks (new_doc d now full short uid) = 0"
  by (simp add: new_doc_def)

lemma doc_id_new_doc [simp]: "doc_id (new_doc d now full short uid) = next_id d"
  by (simp add: new_doc_def)

lemma docs_insert_doc [simp]: "docs (insert_doc d u) = docs d @ [u]"
  by (simp add: insert_doc_def)

lemma next_id_insert_doc [simp]: "next_id (insert_doc d u) = Suc (next_id d)"
  by (simp add: insert_doc_def)

lemma shorten_custom_eq:
  assumes "full \<noteq> []" "custom_alias custom = Some short"
  shows "shorten now r d (Some full) custom uid =
     (if Url_findOne d short \<noteq> None then (Send ''Custom alias already taken'', r, d)
      else (Redirect ''/dashboard'', r, insert_doc d (new_doc d now full short uid)))"
  using assms by (simp add: shorten_def create_and_redirect_free)

lemma shorten_falsy:
  "fullUrl' = None \<or> fullUrl' = Some [] \<Longrightarrow>
   shorten now r d fullUrl' custom uid = (Redirect ''/dashboard'', r, d)"
  by (auto simp: shorten_def)

lemma shorten_random_taken:
  assumes "full \<noteq> []" "custom_alias custom = None"
    and "\<forall>k < 5. Url_findOne d (candidate r k) \<noteq> None"
  shows "shorten now r d (Some full) custom uid =
     (Send ''Could not generate unique short URL, try again'', skip 30 r, d)"
proof -
  have g: "generate_until_unique d 0 r =
      (candidate r 4, 5, Url_findOne d (candidate r 4), skip 30 r)"
    using generate_until_unique_taken[of 0 4 d r] assms(3) by simp
  from assms(3) have "Url_findOne d (candidate r 4) \<noteq> None" by simp
  then show ?thesis using shorten_random_eq[OF assms(1,2) g] by simp
qed

lemma shorten_random_free:
  assumes "full \<noteq> []" "custom_alias custom = None"
    and "k < 5" "\<forall>j < k. Url_findOne d (candidate r j) \<noteq> None"
    and "Url_findOne d (candidate r k) = None"
  shows "shorten now r d (Some full) custom uid =
     (Redirect ''/dashboard'', skip (6 * (k + 1)) r,
      insert_doc d (new_doc d now full (candidate r k) uid))"
proof -
  have g: "generate_until_unique d 0 r = (candidate r k, k + 1, None, skip (6 * (k + 1)) r)"
    using generate_until_unique_free[of 0 k d r] assms(3-5) by simp
  show ?thesis
    using shorten_random_eq[OF assms(1,2) g] create_and_redirect_free[OF assms(5)] by simp
qed

lemma shorten_cases [consumes 1, case_names falsy taken custom exhausted random]:
  assumes "shorten now r d fullUrl' custom uid = (resp, r', d')"
  obtains
    (falsy) "fullUrl' = None \<or> fullUrl' = Some []"
      "resp = Redirect ''/dashboard''" "r' = r" "d' = d"
  | (taken) full short where "fullUrl' = Some full" "full \<noteq> []"
      "custom_alias custom = Some short" "Url_findOne d short \<noteq> None"
      "resp = Send ''Custom alias already taken''" "r' = r" "d' = d"
  | (custom) full short where "fullUrl' = Some full" "full \<noteq> []"
      "custom_alias custom = Some short" "Url_findOne d short = None"
      "resp = Redirect ''/dashboard''" "r' = r"
      "d' = insert_doc d (new_doc d now full short uid)"
  | (exhausted) full where "fullUrl' = Some full" "full \<noteq> []"
      "custom_alias custom = None" "\<forall>k < 5. Url_findOne d (candidate r k) \<noteq> None"
      "resp = Send ''Could not generate unique short URL, try again''"
      "r' = skip 30 r" "d' = d"
  | (random) full k where "fullUrl' = Some full" "full \<noteq> []"
      "custom_alias custom = None" "k < 5"
      "\<forall>j < k. Url_findOne d (candidate r j) \<noteq> None"
      "Url_findOne d (candidate r k) = None"
      "resp = Redirect ''/dashboard''" "r' = skip (6 * (k + 1)) r"
      "d' = insert_doc d (new_doc d now full (candidate r k) uid)"
proof (cases "fullUrl' = None \<or> fullUrl' = Some []")
  case True
  have "shorten now r d fullUrl' custom uid = (Redirect ''/dashboard'', r, d)"
    by (rule shorten_falsy[OF True])
  with assms have "resp = Redirect ''/dashboard''" "r' = r" "d' = d" by simp_all
  then show ?thesis by (rule falsy[OF True])
next
  case False
  then obtain full where full: "fullUrl' = Some full" "full \<noteq> []" by auto
  note call = assms[unfolded full(1)]
  show ?thesis
  proof (cases "custom_alias custom")
    case (Some short)
    note eq = shorten_custom_eq[OF full(2) Some, of now r d uid]
    show ?thesis
    proof (cases "Url_findOne d short = None")
      case True
      with eq have "shorten now r d (Some full) custom uid =
          (Redirect ''/dashboard'', r, insert_doc d (new_doc d now full short uid))"
        by simp
      with call have "resp = Redirect ''/dashboard''" "r' = r"
          "d' = insert_doc d (new_doc d now full short uid)" by simp_all
      then show ?thesis by (rule custom[OF full Some True])
    next
      case False
      with eq have "shorten now r d (Some full) custom uid =
          (Send ''Custom alias already taken'', r, d)"
        by simp
      with call have "resp = Send ''Custom alias already taken''" "r' = r" "d' = d"
        by simp_all
      then show ?thesis by (rule taken[OF full Some False])
    qed
  next
    case None
    show ?thesis
    proof (cases rule: generate_until_unique_cases[of d r])
      case (free k)
      have "shorten now r d (Some full) custom uid =
          (Redirect ''/dashboard'', skip (6 * (k + 1)) r,
           insert_doc d (new_doc d now full (candidate r k) uid))"
        by (rule shorten_random_free[OF full(2) None free])
      with call have "resp = Redirect ''/dashboard''" "r' = skip (6 * (k + 1)) r"
          "d' = insert_doc d (new_doc d now full (candidate r k) uid)" by simp_all
      then show ?thesis by (rule random[OF full None free])
    next
      case taken
      have "shorten now r d (Some full) custom uid =
          (Send ''Could not generate unique short URL, try again'', skip 30 r, d)"
        by (rule shorten_random_taken[OF full(2) None taken])
      with call have "resp = Send ''Could not generate unique short URL, try again''"
          "r' = skip 30 r" "d' = d" by simp_all
      then show ?thesis by (rule exhausted[OF full None taken])
    qed
  qed
qed

section \<open>Codes and aliases\<close>

lemma distinct_chars: "distinct chars \<and> length chars = 62"
  by (simp add: chars_def)

lemma candidate_shape:
  "rng_ok r \<Longrightarrow> length (candidate r k) = 6 \<and> set (candidate r k) \<subseteq> set chars"
  unfolding candidate_def by (rule generateCode_shape) (rule rng_ok_skip)

text \<open>
  Claim C10. A custom alias that is empty or all white space is handled exactly as an
  absent one: the handler takes the random path. A custom alias \<open>c\<close> with some other
  character is replaced by \<open>trim c\<close>, which is \<open>c\<close> without its leading and trailing
  white space; the availability check looks \<open>trim c\<close> up, and the document created
  has \<open>trim c\<close> as its short code.
\<close>

theorem blank_alias_ignored_and_alias_trimmed:
  "(blank c \<longrightarrow>
      shorten now r d fullUrl' (Some c) uid = shorten now r d fullUrl' None uid) \<and>
   (\<not> blank c \<longrightarrow>
      custom_alias (Some c) = Some (trim c) \<and>
      (\<exists>pre post. c = pre @ trim c @ post \<and> blank pre \<and> blank post) \<and>
      trim c \<noteq> [] \<and> \<not> is_ws (hd (trim c)) \<and> \<not> is_ws (last (trim c)) \<and>
      (\<forall>full. full \<noteq> [] \<longrightarrow>
         shorten now r d (Some full) (Some c) uid =
           (if Url_findOne d (trim c) \<noteq> None
            then (Send ''Custom alias already taken'', r, d)
            else (Redirect ''/dashboard'', r,
                  insert_doc d (new_doc d now full (trim c) uid)))))"
proof (intro conjI impI allI)
  assume "blank c"
  then have eq: "custom_alias (Some c) = custom_alias None"
    by (simp add: custom_alias_Some custom_alias_None)
  show "shorten now r d fullUrl' (Some c) uid = shorten now r d fullUrl' None uid"
    unfolding shorten_def eq by (rule refl)
next
  assume nb: "\<not> blank c"
  then show a: "custom_alias (Some c) = Some (trim c)" by (simp add: custom_alias_Some)
  show "\<exists>pre post. c = pre @ trim c @ post \<and> blank pre \<and> blank post" by (rule trim_decomp)
  from nb show ne: "trim c \<noteq> []" by (simp add: trim_Nil_iff)
  from trim_ends[OF ne] show "\<not> is_ws (hd (trim c))" and "\<not> is_ws (last (trim c))"
    by simp_all
  fix full :: string
  assume "full \<noteq> []"
  then show "shorten now r d (Some full) (Some c) uid =
           (if Url_findOne d (trim c) \<noteq> None
            then (Send ''Custom alias already taken'', r, d)
            else (Redirect ''/dashboard'', r,
                  insert_doc d (new_doc d now full (trim c) uid)))"
    using a by (rule shorten_custom_eq)
qed

theorem blank_alias_ignored_and_alias_trimmed_witness:
  "shorten 3 (\<lambda>n. 0) empty_db (Some ''http://example.com'') (Some ''  '') 7 =
     shorten 3 (\<lambda>n. 0) empty_db (Some ''http://example.com'') None 7 \<and>
   shorten 3 (\<lambda>n. 0) empty_db (Some ''http://example.com'') (Some '' my-link  '') 7 =
     (Redirect ''/dashboard'', \<lambda>n. 0,
      \<lparr>docs = [\<lparr>doc_id = 0, fullUrl = ''http://example.com'', shortUrl = ''my-link'',
                user = 7, clicks = 0, createdAt = 3\<rparr>], next_id = 1\<rparr>)"
proof -
  note T = blank_alias_ignored_and_alias_trimmed
             [where now = 3 and r = "\<lambda>n. 0" and d = empty_db and uid = 7
                and fullUrl' = "Some ''http://example.com''"]
  have b: "blank ''  ''" by (simp add: blank_def is_ws_def whitespace_def)
  have nb: "\<not> blank '' my-link  ''" by (simp add: blank_def is_ws_def whitespace_def)
  have t: "trim '' my-link  '' = ''my-link''" by (simp add: trim_def is_ws_def whitespace_def)
  have full: "''http://example.com'' \<noteq> []" by simp
  have A: "shorten 3 (\<lambda>n. 0) empty_db (Some ''http://example.com'') (Some ''  '') 7 =
     shorten 3 (\<lambda>n. 0) empty_db (Some ''http://example.com'') None 7"
    by (rule T [where c = "''  ''", THEN conjunct1, THEN mp, OF b])
  note T2 = T [where c = "'' my-link  ''", THEN conjunct2, THEN mp, OF nb]
  have "shorten 3 (\<lambda>n. 0) empty_db (Some ''http://example.com'') (Some '' my-link  '') 7 =
           (if Url_findOne empty_db (trim '' my-link  '') \<noteq> None
            then (Send ''Custom alias already taken'', \<lambda>n. 0, empty_db)
            else (Redirect ''/dashboard'', \<lambda>n. 0,
                  insert_doc empty_db
                    (new_doc empty_db 3 ''http://example.com'' (trim '' my-link  '') 7)))"
    by (rule T2 [THEN conjunct2, THEN conjunct2, THEN conjunct2, THEN conjunct2,
                 THEN conjunct2, rule_format, OF full])
  then have B: "shorten 3 (\<lambda>n. 0) empty_db (Some ''http://example.com'')
       (Some '' my-link  '') 7 =
     (Redirect ''/dashboard'', \<lambda>n. 0,
      \<lparr>docs = [\<lparr>doc_id = 0, fullUrl = ''http://example.com'', shortUrl = ''my-link'',
                user = 7, clicks = 0, createdAt = 3\<rparr>], next_id = 1\<rparr>)"
    by (simp add: t Url_findOne_def empty_db_def insert_doc_def new_doc_def)
  from A B show ?thesis by (rule conjI)
qed

text \<open>
  Claim C7. When a call of \<^verbatim>\<open>POST /shorten\<close> has created the document \<open>u\<close>
  (on the random path or with a custom alias), \<open>u\<close>'s short code is an alias of the
  custom-alias path, and it is what the alias typed in the first call stands for, if
  there was one. A second call with a target and with that code as custom alias
  answers "Custom alias already taken" and leaves the collection and the generator as
  they were; so does every later call with an alias that stands for the code, in every
  collection that still has a document with the code.
\<close>

theorem second_claim_of_code_refused:
  assumes "rng_ok r"
    and "shorten now r d fullUrl' custom uid = (resp, r', d')"
    and "docs d' = docs d @ [u]"
    and "full2 \<noteq> []"
  shows "custom_alias (Some (shortUrl u)) = Some (shortUrl u) \<and>
         (custom_alias custom \<noteq> None \<longrightarrow> custom_alias custom = Some (shortUrl u)) \<and>
         shorten now2 r2 d' (Some full2) (Some (shortUrl u)) uid2 =
           (Send ''Custom alias already taken'', r2, d') \<and>
         (\<forall>d'' custom2.
            shortUrl u \<in> shortUrl ` set (docs d'') \<longrightarrow>
            custom_alias custom2 = Some (shortUrl u) \<longrightarrow>
            shorten now2 r2 d'' (Some full2) custom2 uid2 =
              (Send ''Custom alias already taken'', r2, d''))"
proof -
  have created: "custom_alias (Some (shortUrl u)) = Some (shortUrl u) \<and>
      (custom_alias custom \<noteq> None \<longrightarrow> custom_alias custom = Some (shortUrl u))"
    using assms(2)
  proof (cases rule: shorten_cases)
    case falsy
    with assms(3) show ?thesis by simp
  next
    case (taken full short)
    with assms(3) show ?thesis by simp
  next
    case (custom full short)
    with assms(3) have "u = new_doc d now full short uid" by simp
    then have "shortUrl u = short" by simp
    with custom(3) show ?thesis by (simp add: custom_alias_fixed)
  next
    case (exhausted full)
    with assms(3) show ?thesis by simp
  next
    case (random full k)
    with assms(3) have "u = new_doc d now full (candidate r k) uid" by simp
    then have "shortUrl u = candidate r k" by simp
    with candidate_shape[OF assms(1), of k] random(3) show ?thesis
      by (simp add: custom_alias_code)
  qed
  have later: "shorten now2 r2 d'' (Some full2) custom2 uid2 =
      (Send ''Custom alias already taken'', r2, d'')"
    if "shortUrl u \<in> shortUrl ` set (docs d'')" "custom_alias custom2 = Some (shortUrl u)"
    for d'' custom2
  proof -
    from that(1) have "Url_findOne d'' (shortUrl u) \<noteq> None"
      by (simp add: find_None_iff_codes)
    with shorten_custom_eq[OF assms(4) that(2), of now2 r2 d'' uid2] show ?thesis by simp
  qed
  have "shortUrl u \<in> shortUrl ` set (docs d')" using assms(3) by simp
  with later created have "shorten now2 r2 d' (Some full2) (Some (shortUrl u)) uid2 =
      (Send ''Custom alias already taken'', r2, d')"
    by blast
  with created later show ?thesis by blast
qed

theorem second_claim_of_code_refused_witness:
  "rng_ok (\<lambda>n. 0) \<and>
   shorten 3 (\<lambda>n. 0) empty_db (Some ''http://example.com'') None 7 =
     (Redirect ''/dashboard'', skip 6 (\<lambda>n. 0),
      \<lparr>docs = [\<lparr>doc_id = 0, fullUrl = ''http://example.com'', shortUrl = ''AAAAAA'',
                user = 7, clicks = 0, createdAt = 3\<rparr>], next_id = 1\<rparr>) \<and>
   shorten 9 (\<lambda>n. 1 / 2)
      \<lparr>docs = [\<lparr>doc_id = 0, fullUrl = ''http://example.com'', shortUrl = ''AAAAAA'',
                user = 7, clicks = 0, createdAt = 3\<rparr>], next_id = 1\<rparr>
      (Some ''http://other.example'') (Some ''AAAAAA'') 8 =
     (Send ''Custom alias already taken'', \<lambda>n. 1 / 2,
      \<lparr>docs = [\<lparr>doc_id = 0, fullUrl = ''http://example.com'', shortUrl = ''AAAAAA'',
                user = 7, clicks = 0, createdAt = 3\<rparr>], next_id = 1\<rparr>)"
proof -
  let ?u = "\<lparr>doc_id = 0, fullUrl = ''http://example.com'', shortUrl = ''AAAAAA'',
             user = 7, clicks = 0, createdAt = 3\<rparr>"
  let ?d' = "\<lparr>docs = [?u], next_id = 1\<rparr>"
  have ok: "rng_ok (\<lambda>n. 0)" by (simp add: rng_ok_def is_double_def to_double_0)
  have c0: "candidate (\<lambda>n. 0) 0 = ''AAAAAA''"
    by (simp add: candidate_def skip_def generateCode_eq upt_0_6 pick_def charAt_def
        chars_def to_double_0 to_double_31)
  have full: "''http://example.com'' \<noteq> []" by simp
  have none: "custom_alias None = None" by (rule custom_alias_None)
  have k: "(0::nat) < 5" by simp
  have before: "\<forall>j < (0::nat). Url_findOne empty_db (candidate (\<lambda>n. 0) j) \<noteq> None"
    by simp
  have free: "Url_findOne empty_db (candidate (\<lambda>n. 0) 0) = None"
    by (simp add: Url_findOne_def empty_db_def)
  have "shorten 3 (\<lambda>n. 0) empty_db (Some ''http://example.com'') None 7 =
     (Redirect ''/dashboard'', skip (6 * (0 + 1)) (\<lambda>n. 0),
      insert_doc empty_db
        (new_doc empty_db 3 ''http://example.com'' (candidate (\<lambda>n. 0) 0) 7))"
    by (rule shorten_random_free[OF full none k before free])
  then have first: "shorten 3 (\<lambda>n. 0) empty_db (Some ''http://example.com'') None 7 =
     (Redirect ''/dashboard'', skip 6 (\<lambda>n. 0), ?d')"
    by (simp add: c0 insert_doc_def new_doc_def empty_db_def)
  have last: "docs ?d' = docs empty_db @ [?u]" by (simp add: empty_db_def)
  have full2: "''http://other.example'' \<noteq> []" by simp
  have "shorten 9 (\<lambda>n. 1 / 2) ?d' (Some ''http://other.example'') (Some (shortUrl ?u)) 8 =
           (Send ''Custom alias already taken'', \<lambda>n. 1 / 2, ?d')"
    by (rule second_claim_of_code_refused [OF ok first last full2, THEN conjunct2,
          THEN conjunct2, THEN conjunct1])
  then have second: "shorten 9 (\<lambda>n. 1 / 2) ?d' (Some ''http://other.example'')
      (Some ''AAAAAA'') 8 = (Send ''Custom alias already taken'', \<lambda>n. 1 / 2, ?d')"
    by simp
  show ?thesis by (rule conjI[OF ok conjI[OF first second]])
qed

section \<open>What the store operations preserve\<close>

lemma set_delete_first: "set (delete_first i uid us) \<subseteq> set us"
  by (induction us) auto

lemma distinct_map_delete_first:
  "distinct (map f us) \<Longrightarrow> distinct (map f (delete_first i uid us))"
proof (induction us)
  case Nil
  then show ?case by simp
next
  case (Cons u us)
  have "f ` set (delete_first i uid us) \<subseteq> f ` set us"
    using set_delete_first by (rule image_mono)
  with Cons show ?case by auto
qed

lemma set_inc_clicks:
  "u' \<in> set (inc_clicks i us) \<Longrightarrow>
   \<exists>u \<in> set us. doc_id u = doc_id u' \<and> (u' = u \<or> doc_id u = i \<and> clicks u' = clicks u + 1)"
  by (induction us) (auto split: if_splits)

lemma ids_ok_insert: "ids_ok d \<Longrightarrow> ids_ok (insert_doc d (new_doc d now full short uid))"
  by (auto simp: ids_ok_def list_all_iff less_Suc_eq)

lemma ids_ok_inc: "ids_ok d \<Longrightarrow> ids_ok (Url_findByIdAndUpdate_inc d i)"
proof -
  assume a: "ids_ok d"
  then have "list_all (\<lambda>u. doc_id u < next_id d) (inc_clicks i (docs d))"
    by (auto simp: ids_ok_def list_all_iff dest!: set_inc_clicks)
  with a show ?thesis by (simp add: ids_ok_def Url_findByIdAndUpdate_inc_def)
qed

lemma ids_ok_delete: "ids_ok d \<Longrightarrow> ids_ok (Url_findOneAndDelete d i uid)"
  using set_delete_first[of i uid "docs d"]
  by (auto simp: ids_ok_def Url_findOneAndDelete_def list_all_iff distinct_map_delete_first)

lemma codes_unique_insert:
  "codes_unique d \<Longrightarrow> Url_findOne d (shortUrl u) = None \<Longrightarrow> codes_unique (insert_doc d u)"
  by (simp add: codes_unique_def find_None_iff_codes)

lemma codes_unique_inc: "codes_unique d \<Longrightarrow> codes_unique (Url_findByIdAndUpdate_inc d i)"
  by (simp add: codes_unique_def Url_findByIdAndUpdate_inc_def)

lemma codes_unique_delete: "codes_unique d \<Longrightarrow> codes_unique (Url_findOneAndDelete d i uid)"
  by (simp add: codes_unique_def Url_findOneAndDelete_def distinct_map_delete_first)

lemma create_and_redirect_cases:
  obtains (duplicate) "Url_findOne d short \<noteq> None"
      "create_and_redirect d now full short uid = (Unhandled DuplicateKey, d)"
  | (created) "Url_findOne d short = None"
      "create_and_redirect d now full short uid =
         (Redirect ''/dashboard'', insert_doc d (new_doc d now full short uid))"
  by (cases "Url_findOne d short = None")
     (auto simp: create_and_redirect_def Url_create_def)

lemma codes_unique_create:
  "codes_unique d \<Longrightarrow> codes_unique (snd (create_and_redirect d now full short uid))"
  by (cases rule: create_and_redirect_cases[of d short now full uid])
     (auto simp: codes_unique_insert)

lemma ids_ok_create:
  "ids_ok d \<Longrightarrow> ids_ok (snd (create_and_redirect d now full short uid))"
  by (cases rule: create_and_redirect_cases[of d short now full uid])
     (auto simp: ids_ok_insert)

section \<open>Click counts\<close>

lemma no_decrease_iff:
  "no_decrease d d' =
     (\<forall>u' \<in> set (docs d').
        (\<exists>u \<in> set (docs d). doc_id u = doc_id u' \<and> clicks u \<le> clicks u') \<or>
        next_id d \<le> doc_id u')"
  by (simp add: no_decrease_def list_all_iff list_ex_iff)

lemma no_decrease_refl: "no_decrease d d"
  by (auto simp: no_decrease_iff)

lemma no_decrease_trans:
  assumes "no_decrease d d'" "no_decrease d' d''" "next_id d \<le> next_id d'"
  shows "no_decrease d d''"
  unfolding no_decrease_iff
proof
  fix w assume "w \<in> set (docs d'')"
  with assms(2) consider
    (old) v where "v \<in> set (docs d')" "doc_id v = doc_id w" "clicks v \<le> clicks w"
    | (new) "next_id d' \<le> doc_id w"
    by (auto simp: no_decrease_iff)
  then show "(\<exists>u \<in> set (docs d). doc_id u = doc_id w \<and> clicks u \<le> clicks w) \<or>
             next_id d \<le> doc_id w"
  proof cases
    case old
    with assms(1) consider
      (older) u where "u \<in> set (docs d)" "doc_id u = doc_id v" "clicks u \<le> clicks v"
      | (newer) "next_id d \<le> doc_id v"
      by (auto simp: no_decrease_iff)
    then show ?thesis
    proof cases
      case older
      with old have "doc_id u = doc_id w \<and> clicks u \<le> clicks w" by simp
      with older(1) show ?thesis by blast
    next
      case newer
      with old show ?thesis by simp
    qed
  next
    case new
    with assms(3) show ?thesis by simp
  qed
qed

lemma no_decrease_insert: "no_decrease d (insert_doc d (new_doc d now full short uid))"
  by (auto simp: no_decrease_iff)

lemma no_decrease_inc: "no_decrease d (Url_findByIdAndUpdate_inc d i)"
  by (auto simp: no_decrease_iff Url_findByIdAndUpdate_inc_def dest!: set_inc_clicks)

lemma no_decrease_delete: "no_decrease d (Url_findOneAndDelete d i uid)"
  using set_delete_first[of i uid "docs d"]
  by (auto simp: no_decrease_iff Url_findOneAndDelete_def)

lemma no_decrease_create: "no_decrease d (snd (create_and_redirect d now full short uid))"
  by (cases rule: create_and_redirect_cases[of d short now full uid])
     (auto simp: no_decrease_insert no_decrease_refl)

text \<open>One step of a request in flight.\<close>

lemma task_step_preserves:
  assumes "task_step t (r, d) = (t', r', d')"
  shows "(codes_unique d \<longrightarrow> codes_unique d') \<and> (ids_ok d \<longrightarrow> ids_ok d') \<and>
         no_decrease d d' \<and> next_id d \<le> next_id d'"
proof -
  have same: ?thesis if "d' = d"
    using that by (simp add: no_decrease_refl)
  have create: ?thesis if "d' = snd (create_and_redirect d now full short uid)"
    for now full short uid
  proof -
    have "next_id d \<le> next_id d'"
      unfolding that
      by (cases rule: create_and_redirect_cases[of d short now full uid]) simp_all
    then show ?thesis
      unfolding that by (simp add: codes_unique_create ids_ok_create no_decrease_create)
  qed
  have inc: ?thesis if "d' = Url_findByIdAndUpdate_inc d i" for i
    unfolding that
    by (simp add: codes_unique_inc ids_ok_inc no_decrease_inc)
       (simp add: Url_findByIdAndUpdate_inc_def)
  have del: ?thesis if "d' = Url_findOneAndDelete d i uid" for i uid
    unfolding that
    by (simp add: codes_unique_delete ids_ok_delete no_decrease_delete)
       (simp add: Url_findOneAndDelete_def)
  show ?thesis
  proof (cases t)
    case (Start req)
    with assms have "d' = d"
      by (cases req) (auto split: option.splits if_splits)
    then show ?thesis by (rule same)
  next
    case (Await_findOne_custom now full short uid)
    with assms have "d' = d" by (auto split: if_splits)
    then show ?thesis by (rule same)
  next
    case (Await_findOne_random now full short attempts uid)
    with assms have "d' = d" by (auto split: if_splits)
    then show ?thesis by (rule same)
  next
    case (Await_create now full short uid)
    with assms have "d' = snd (create_and_redirect d now full short uid)" by auto
    then show ?thesis by (rule create)
  next
    case (Await_findOne_visit short)
    with assms have "d' = d" by (auto split: option.splits)
    then show ?thesis by (rule same)
  next
    case (Await_inc i full)
    with assms have "d' = Url_findByIdAndUpdate_inc d i" by auto
    then show ?thesis by (rule inc)
  next
    case (Await_delete i uid)
    with assms have "d' = Url_findOneAndDelete d i uid" by auto
    then show ?thesis by (rule del)
  next
    case (Await_find uid)
    with assms have "d' = d" by auto
    then show ?thesis by (rule same)
  next
    case (Done resp)
    with assms have "d' = d" by auto
    then show ?thesis by (rule same)
  qed
qed

lemma step_preserves:
  "(codes_unique (store w) \<longrightarrow> codes_unique (store (step i w))) \<and>
   (ids_ok (store w) \<longrightarrow> ids_ok (store (step i w))) \<and>
   no_decrease (store w) (store (step i w)) \<and>
   next_id (store w) \<le> next_id (store (step i w))"
proof (cases "i < length (pool w)")
  case True
  obtain t r' d' where ts: "task_step (pool w ! i) (random w, store w) = (t, r', d')"
    by (cases "task_step (pool w ! i) (random w, store w)") auto
  with True have "store (step i w) = d'" by (simp add: step_def)
  with task_step_preserves[OF ts] show ?thesis by simp
next
  case False
  then show ?thesis by (simp add: step_def no_decrease_refl)
qed

lemma run_Nil [simp]: "run [] w = w"
  by (simp add: run_def)

lemma run_Cons [simp]: "run (i # schedule) w = run schedule (step i w)"
  by (simp add: run_def)

lemma run_preserves:
  "(codes_unique (store w) \<longrightarrow> codes_unique (store (run schedule w))) \<and>
   (ids_ok (store w) \<longrightarrow> ids_ok (store (run schedule w))) \<and>
   no_decrease (store w) (store (run schedule w)) \<and>
   next_id (store w) \<le> next_id (store (run schedule w))"
proof (induction schedule arbitrary: w)
  case Nil
  then show ?case by (simp add: no_decrease_refl)
next
  case (Cons i schedule)
  note s = step_preserves[of w i]
  note t = Cons.IH[of "step i w"]
  have "no_decrease (store w) (store (run schedule (step i w)))"
    using s t by (blast intro: no_decrease_trans)
  moreover have "next_id (store w) \<le> next_id (store (run schedule (step i w)))"
    using s t by (blast intro: order_trans)
  ultimately show ?case using s t by simp
qed

section \<open>A request running alone\<close>

lemma run_alone_Done [simp]: "run_alone n (Done resp, r, d) = (Done resp, r, d)"
  by (induction n) auto

lemma await_random_loop:
  assumes "a + n = 4" and "generate_until_unique d a r0 = (s, a', e, r')"
  shows "run_alone (Suc (Suc n))
           (Await_findOne_random now full (fst (generateCode r0)) (a + 1) uid,
            snd (generateCode r0), d) =
         (if e \<noteq> None
          then (Done (Send ''Could not generate unique short URL, try again''), r', d)
          else (Done (fst (create_and_redirect d now full s uid)), r',
                snd (create_and_redirect d now full s uid)))"
  using assms
proof (induction n arbitrary: a r0)
  case 0
  then have a: "a = 4" by simp
  from 0(2) have "(s, a', e, r') =
      (fst (generateCode r0), 5, Url_findOne d (fst (generateCode r0)), snd (generateCode r0))"
    unfolding a by (subst (asm) generate_until_unique.simps) (auto simp: Let_def)
  then have "s = fst (generateCode r0)" "a' = 5" "e = Url_findOne d (fst (generateCode r0))"
      "r' = snd (generateCode r0)" by auto
  then show ?case by (simp add: a)
next
  case (Suc n)
  let ?short = "fst (generateCode r0)"
  let ?r1 = "snd (generateCode r0)"
  from Suc.prems(1) have lt: "a + 1 < 5" by simp
  show ?case
  proof (cases "Url_findOne d ?short = None")
    case True
    from Suc.prems(2) have "(s, a', e, r') = (?short, a + 1, None, ?r1)"
      by (subst (asm) generate_until_unique.simps) (auto simp: Let_def True)
    then have "s = ?short" "e = None" "r' = ?r1" by auto
    then show ?thesis using True by simp
  next
    case False
    from Suc.prems(2) have g: "generate_until_unique d (a + 1) ?r1 = (s, a', e, r')"
      using False lt by (subst (asm) generate_until_unique.simps) (simp add: Let_def)
    have "a + 1 + n = 4" using Suc.prems(1) by simp
    from Suc.IH[OF this g] show ?thesis using False lt by simp
  qed
qed

lemma run_alone_shorten:
  "run_alone 7 (Start (Shorten_req now fullUrl' custom uid), r, d) =
     (Done (fst (shorten now r d fullUrl' custom uid)), snd (shorten now r d fullUrl' custom uid))"
proof (cases "fullUrl' = None \<or> fullUrl' = Some []")
  case True
  then show ?thesis by (auto simp: eval_nat_numeral shorten_def)
next
  case False
  then obtain full where full: "fullUrl' = Some full" "full \<noteq> []" by auto
  show ?thesis
  proof (cases "custom_alias custom")
    case (Some short)
    then show ?thesis
      using full by (simp add: eval_nat_numeral shorten_def split: prod.splits)
  next
    case None
    obtain s a' e r' where g: "generate_until_unique d 0 r = (s, a', e, r')"
      by (cases "generate_until_unique d 0 r") auto
    have "0 + 4 = (4::nat)" by simp
    from await_random_loop[OF this g, of now full uid]
    show ?thesis
      using full None g by (simp add: eval_nat_numeral shorten_def split: prod.splits)
  qed
qed

lemma run_alone_handle:
  "run_alone 7 (Start req, r, d) = (Done (fst (handle req (r, d))), snd (handle req (r, d)))"
proof (cases req)
  case (Shorten_req now fullUrl' custom uid)
  then show ?thesis by (simp add: run_alone_shorten)
next
  case (Visit_req short)
  then show ?thesis
    by (cases "Url_findOne d short") (simp_all add: eval_nat_numeral redirect_def)
next
  case (Delete_req i uid)
  then show ?thesis by (simp add: eval_nat_numeral delete_url_def)
next
  case (Dashboard_req uid)
  then show ?thesis by (simp add: eval_nat_numeral)
qed

lemma run_alone_preserves:
  "run_alone n (t, r, d) = (t', r', d') \<Longrightarrow>
   (codes_unique d \<longrightarrow> codes_unique d') \<and> (ids_ok d \<longrightarrow> ids_ok d') \<and>
   no_decrease d d' \<and> next_id d \<le> next_id d'"
proof (induction n arbitrary: t r d)
  case 0
  then show ?case by (simp add: no_decrease_refl)
next
  case (Suc n)
  obtain t1 r1 d1 where ts: "task_step t (r, d) = (t1, r1, d1)"
    by (cases "task_step t (r, d)") auto
  with Suc.prems have "run_alone n (t1, r1, d1) = (t', r', d')" by simp
  note b = Suc.IH[OF this]
  note a = task_step_preserves[OF ts]
  have "no_decrease d d'" using a b by (blast intro: no_decrease_trans)
  moreover have "next_id d \<le> next_id d'" using a b by (blast intro: order_trans)
  ultimately show ?case using a b by simp
qed

lemma handle_preserves:
  "(codes_unique d \<longrightarrow> codes_unique (snd (snd (handle req (r, d))))) \<and>
   (ids_ok d \<longrightarrow> ids_ok (snd (snd (handle req (r, d))))) \<and>
   no_decrease d (snd (snd (handle req (r, d))))"
proof -
  have "run_alone 7 (Start req, r, d) =
      (Done (fst (handle req (r, d))), fst (snd (handle req (r, d))),
       snd (snd (handle req (r, d))))"
    by (simp add: run_alone_handle)
  from run_alone_preserves[OF this] show ?thesis by simp
qed

section \<open>Uniqueness of the short codes\<close>

text \<open>
  Claim C5. The short codes of the collection are pairwise different in the empty
  collection, after every request handled from a collection where they are, and after
  every schedule of every pool of requests in flight, whatever the order in which
  their store calls interleave; in particular in every state reached from the empty
  collection.
\<close>

theorem short_codes_stay_unique:
  "codes_unique empty_db \<and>
   (codes_unique d \<longrightarrow> codes_unique (snd (snd (handle req (r, d))))) \<and>
   (codes_unique (store w) \<longrightarrow> codes_unique (store (run schedule w))) \<and>
   codes_unique (store (run schedule \<lparr>random = r, store = empty_db, pool = map Start reqs\<rparr>))"
proof -
  have e: "codes_unique empty_db" by (simp add: codes_unique_def empty_db_def)
  let ?w = "\<lparr>random = r, store = empty_db, pool = map Start reqs\<rparr>"
  have "codes_unique (store ?w)" using e by simp
  with run_preserves[of ?w schedule]
  have "codes_unique (store (run schedule ?w))" by blast
  with e handle_preserves[of d req r] run_preserves[of w schedule] show ?thesis by blast
qed

theorem short_codes_stay_unique_witness:
  "run [0, 1, 0, 1, 0, 1]
     \<lparr>random = \<lambda>n. 0, store = empty_db,
      pool = [Start (Shorten_req 3 (Some ''http://a.example'') (Some ''promo'') 7),
              Start (Shorten_req 4 (Some ''http://b.example'') (Some ''promo'') 8)]\<rparr> =
   \<lparr>random = \<lambda>n. 0,
    store = \<lparr>docs = [\<lparr>doc_id = 0, fullUrl = ''http://a.example'', shortUrl = ''promo'',
                      user = 7, clicks = 0, createdAt = 3\<rparr>], next_id = 1\<rparr>,
    pool = [Done (Redirect ''/dashboard''), Done (Unhandled DuplicateKey)]\<rparr> \<and>
   codes_unique (store (run [0, 1, 0, 1, 0, 1]
     \<lparr>random = \<lambda>n. 0, store = empty_db,
      pool = [Start (Shorten_req 3 (Some ''http://a.example'') (Some ''promo'') 7),
              Start (Shorten_req 4 (Some ''http://b.example'') (Some ''promo'') 8)]\<rparr>))"
proof -
  let ?w = "\<lparr>random = \<lambda>n. 0 :: real, store = empty_db,
      pool = [Start (Shorten_req 3 (Some ''http://a.example'') (Some ''promo'') 7),
              Start (Shorten_req 4 (Some ''http://b.example'') (Some ''promo'') 8)]\<rparr>"
  have a: "custom_alias (Some ''promo'') = Some ''promo''"
    by (simp add: custom_alias_def trim_def is_ws_def whitespace_def)
  have A: "run [0, 1, 0, 1, 0, 1] ?w =
   \<lparr>random = \<lambda>n. 0,
    store = \<lparr>docs = [\<lparr>doc_id = 0, fullUrl = ''http://a.example'', shortUrl = ''promo'',
                      user = 7, clicks = 0, createdAt = 3\<rparr>], next_id = 1\<rparr>,
    pool = [Done (Redirect ''/dashboard''), Done (Unhandled DuplicateKey)]\<rparr>"
    by (simp add: step_def a Url_findOne_def empty_db_def create_and_redirect_def
        Url_create_def insert_doc_def new_doc_def)
  have h: "codes_unique (store ?w)" by (simp add: codes_unique_def empty_db_def)
  have B: "codes_unique (store (run [0, 1, 0, 1, 0, 1] ?w))"
    by (rule short_codes_stay_unique
          [where w = ?w and schedule = "[0, 1, 0, 1, 0, 1]", THEN conjunct2, THEN conjunct2,
           THEN conjunct1, THEN mp, OF h])
  from A B show ?thesis by (rule conjI)
qed

section \<open>Click counts never go down\<close>

text \<open>
  Claim C6. In a collection with unique ids, after any one request (shorten, visit,
  delete, dashboard) every document of the collection is either a document that was
  there before, with the same click count, or with exactly one click more when the
  request was a visit; or it is the document a shorten request has just created, with
  click count 0. So a click count never goes down, and only the redirect handler
  changes one. The same holds along every schedule of requests in flight: every
  document of the later collection that was in the earlier one has at least the clicks
  it had.
\<close>

theorem clicks_start_at_zero_and_never_decrease:
  assumes "ids_ok d"
  shows "(\<forall>u' \<in> set (docs (snd (snd (handle req (r, d))))).
            (\<exists>u \<in> set (docs d). doc_id u = doc_id u' \<and>
               (clicks u' = clicks u \<or>
                (\<exists>short. req = Visit_req short) \<and> clicks u' = clicks u + 1)) \<or>
            (doc_id u' \<notin> doc_id ` set (docs d) \<and> clicks u' = 0 \<and>
             (\<exists>now fullUrl' custom uid. req = Shorten_req now fullUrl' custom uid))) \<and>
         ids_ok (snd (snd (handle req (r, d)))) \<and>
         no_decrease d (snd (snd (handle req (r, d)))) \<and>
         (store w = d \<longrightarrow>
            no_decrease d (store (run schedule w)) \<and> ids_ok (store (run schedule w)))"
proof (intro conjI ballI impI)
  fix u' assume mem: "u' \<in> set (docs (snd (snd (handle req (r, d)))))"
  let ?old = "\<exists>u \<in> set (docs d). doc_id u = doc_id u' \<and>
               (clicks u' = clicks u \<or>
                (\<exists>short. req = Visit_req short) \<and> clicks u' = clicks u + 1)"
  let ?new = "doc_id u' \<notin> doc_id ` set (docs d) \<and> clicks u' = 0 \<and>
             (\<exists>now fullUrl' custom uid. req = Shorten_req now fullUrl' custom uid)"
  have same: "?old" if "u' \<in> set (docs d)"
    using that by blast
  show "?old \<or> ?new"
  proof (cases req)
    case (Shorten_req now fullUrl' custom uid)
    obtain resp r' d' where s: "shorten now r d fullUrl' custom uid = (resp, r', d')"
      by (cases "shorten now r d fullUrl' custom uid") auto
    with mem Shorten_req have m: "u' \<in> set (docs d')" by simp
    have fresh: "next_id d \<notin> doc_id ` set (docs d)"
      using assms by (auto simp: ids_ok_def list_all_iff)
    have created: "?old \<or> ?new" if "d' = insert_doc d (new_doc d now full short uid)"
      for full short
    proof (cases "u' \<in> set (docs d)")
      case True
      then show ?thesis using same by simp
    next
      case False
      with m that have "u' = new_doc d now full short uid" by simp
      with fresh Shorten_req show ?thesis by simp
    qed
    from s show ?thesis
    proof (cases rule: shorten_cases)
      case falsy
      with m same show ?thesis by simp
    next
      case (taken full short)
      with m same show ?thesis by simp
    next
      case (custom full short)
      then show ?thesis using created by simp
    next
      case (exhausted full)
      with m same show ?thesis by simp
    next
      case (random full k)
      then show ?thesis using created by simp
    qed
  next
    case (Visit_req short)
    show ?thesis
    proof (cases "Url_findOne d short")
      case None
      with mem Visit_req have "u' \<in> set (docs d)" by (simp add: redirect_def)
      then show ?thesis using same by simp
    next
      case (Some url)
      with mem Visit_req have "u' \<in> set (inc_clicks (doc_id url) (docs d))"
        by (simp add: redirect_def Url_findByIdAndUpdate_inc_def)
      from set_inc_clicks[OF this] Visit_req show ?thesis by auto
    qed
  next
    case (Delete_req i uid)
    with mem have "u' \<in> set (delete_first i uid (docs d))"
      by (simp add: delete_url_def Url_findOneAndDelete_def)
    then have "u' \<in> set (docs d)" using set_delete_first by blast
    then show ?thesis using same by simp
  next
    case (Dashboard_req uid)
    with mem have "u' \<in> set (docs d)" by simp
    then show ?thesis using same by simp
  qed
next
  show "ids_ok (snd (snd (handle req (r, d))))"
    using assms handle_preserves[of d req r] by blast
  show "no_decrease d (snd (snd (handle req (r, d))))"
    using handle_preserves[of d req r] by blast
next
  assume w: "store w = d"
  show "no_decrease d (store (run schedule w))"
    using run_preserves[of w schedule] by (simp add: w)
  show "ids_ok (store (run schedule w))"
    using assms run_preserves[of w schedule] by (simp add: w)
qed

theorem clicks_start_at_zero_and_never_decrease_witness:
  "ids_ok \<lparr>docs = [\<lparr>doc_id = 0, fullUrl = ''http://a.example'', shortUrl = ''AAAAAA'',
                      user = 1, clicks = 3, createdAt = 0\<rparr>,
                    \<lparr>doc_id = 1, fullUrl = ''http://b.example'', shortUrl = ''promo'',
                      user = 2, clicks = 8, createdAt = 4\<rparr>], next_id = 2\<rparr> \<and>
   map clicks (docs (snd (snd (handle (Visit_req ''promo'')
     (\<lambda>n. 0,
      \<lparr>docs = [\<lparr>doc_id = 0, fullUrl = ''http://a.example'', shortUrl = ''AAAAAA'',
                user = 1, clicks = 3, createdAt = 0\<rparr>,
              \<lparr>doc_id = 1, fullUrl = ''http://b.example'', shortUrl = ''promo'',
                user = 2, clicks = 8, createdAt = 4\<rparr>], next_id = 2\<rparr>))))) = [3, 9] \<and>
   no_decrease
     \<lparr>docs = [\<lparr>doc_id = 0, fullUrl = ''http://a.example'', shortUrl = ''AAAAAA'',
               user = 1, clicks = 3, createdAt = 0\<rparr>,
             \<lparr>doc_id = 1, fullUrl = ''http://b.example'', shortUrl = ''promo'',
               user = 2, clicks = 8, createdAt = 4\<rparr>], next_id = 2\<rparr>
     (snd (snd (handle (Visit_req ''promo'')
       (\<lambda>n. 0,
        \<lparr>docs = [\<lparr>doc_id = 0, fullUrl = ''http://a.example'', shortUrl = ''AAAAAA'',
                  user = 1, clicks = 3, createdAt = 0\<rparr>,
                \<lparr>doc_id = 1, fullUrl = ''http://b.example'', shortUrl = ''promo'',
                  user = 2, clicks = 8, createdAt = 4\<rparr>], next_id = 2\<rparr>))))"
proof -
  let ?d = "\<lparr>docs = [\<lparr>doc_id = 0, fullUrl = ''http://a.example'', shortUrl = ''AAAAAA'',
                      user = 1, clicks = 3, createdAt = 0\<rparr>,
                    \<lparr>doc_id = 1, fullUrl = ''http://b.example'', shortUrl = ''promo'',
                      user = 2, clicks = 8, createdAt = 4\<rparr>], next_id = 2\<rparr>"
  have ids: "ids_ok ?d" by (simp add: ids_ok_def)
  have ev: "map clicks (docs (snd (snd (handle (Visit_req ''promo'') (\<lambda>n. 0, ?d))))) = [3, 9]"
    by (simp add: redirect_def Url_findOne_def Url_findByIdAndUpdate_inc_def)
  have mono: "no_decrease ?d (snd (snd (handle (Visit_req ''promo'') (\<lambda>n. 0, ?d))))"
    by (rule clicks_start_at_zero_and_never_decrease
          [OF ids, where req = "Visit_req ''promo''" and r = "\<lambda>n. 0",
           THEN conjunct2, THEN conjunct2, THEN conjunct1])
  show ?thesis by (rule conjI[OF ids conjI[OF ev mono]])
qed

section \<open>Visits in flight at the same time\<close>

lemma add_clicks_0 [simp]: "add_clicks i 0 us = us"
  by (induction us) auto

lemma add_clicks_add_clicks: "add_clicks i m (add_clicks i n us) = add_clicks i (n + m) us"
  by (induction us) auto

lemma find_add_clicks:
  "find (\<lambda>v. shortUrl v = c) (add_clicks i n us) =
     map_option (\<lambda>v. if doc_id v = i then v\<lparr>clicks := clicks v + n\<rparr> else v)
       (find (\<lambda>v. shortUrl v = c) us)"
  by (induction us) auto

lemma findOne_add_clicks:
  assumes "codes_unique d" "u \<in> set (docs d)"
  shows "Url_findOne (d\<lparr>docs := add_clicks (doc_id u) n (docs d)\<rparr>) (shortUrl u) =
           Some (u\<lparr>clicks := clicks u + n\<rparr>)"
proof -
  have "find (\<lambda>v. shortUrl v = shortUrl u) (docs d) = Some u"
    using findOne_unique[OF assms] by (simp add: Url_findOne_def)
  then show ?thesis by (simp add: Url_findOne_def find_add_clicks)
qed

lemma inc_add_clicks:
  assumes "ids_ok d"
  shows "Url_findByIdAndUpdate_inc (d\<lparr>docs := add_clicks i n (docs d)\<rparr>) i =
           d\<lparr>docs := add_clicks i (Suc n) (docs d)\<rparr>"
proof -
  have "distinct (map doc_id (add_clicks i n (docs d)))"
    using assms by (simp add: ids_ok_def)
  then have "inc_clicks i (add_clicks i n (docs d)) = add_clicks i 1 (add_clicks i n (docs d))"
    by (rule inc_clicks_eq)
  then show ?thesis
    by (simp add: Url_findByIdAndUpdate_inc_def add_clicks_add_clicks)
qed

lemma count_done_update:
  "i < length ps \<Longrightarrow>
   length (filter (\<lambda>p. 3 \<le> p) (ps[i := Suc (ps ! i)])) =
     (if ps ! i = 2 then Suc (length (filter (\<lambda>p. 3 \<le> p) ps))
      else length (filter (\<lambda>p. 3 \<le> p) ps))"
proof (induction ps arbitrary: i)
  case Nil
  then show ?case by simp
next
  case (Cons p ps)
  show ?case
  proof (cases i)
    case 0
    then show ?thesis by auto
  next
    case (Suc j)
    with Cons.prems have "j < length ps" by simp
    from Cons.IH[OF this] Suc show ?thesis by (auto split: if_splits)
  qed
qed

lemma visit_task_step:
  assumes "ids_ok d" "codes_unique d" "u \<in> set (docs d)"
  shows "task_step (visit_task u p)
           (r, d\<lparr>docs := add_clicks (doc_id u) n (docs d)\<rparr>) =
         (visit_task u (Suc p), r,
          d\<lparr>docs := add_clicks (doc_id u) (if p = 2 then Suc n else n) (docs d)\<rparr>)"
proof -
  consider "p = 0" | "p = 1" | "p = 2" | "3 \<le> p" by linarith
  then show ?thesis
  proof cases
    case 1
    then show ?thesis by (simp add: visit_task_def)
  next
    case 2
    then show ?thesis
      by (simp add: visit_task_def findOne_add_clicks[OF assms(2,3)])
  next
    case 3
    then show ?thesis
      by (simp add: visit_task_def inc_add_clicks[OF assms(1)])
  next
    case 4
    then show ?thesis by (simp add: visit_task_def)
  qed
qed

lemma visits_step:
  assumes "ids_ok d" "codes_unique d" "u \<in> set (docs d)"
  shows "step i (visits_state r d u ps) =
           visits_state r d u (if i < length ps then ps[i := Suc (ps ! i)] else ps)"
proof (cases "i < length ps")
  case False
  then show ?thesis by (simp add: step_def visits_state_def)
next
  case True
  let ?n = "length (filter (\<lambda>p. 3 \<le> p) ps)"
  note cnt = count_done_update[OF True]
  have "task_step (pool (visits_state r d u ps) ! i)
          (random (visits_state r d u ps), store (visits_state r d u ps)) =
        (visit_task u (Suc (ps ! i)), r,
          d\<lparr>docs := add_clicks (doc_id u) (if ps ! i = 2 then Suc ?n else ?n) (docs d)\<rparr>)"
    using True visit_task_step[OF assms, of "ps ! i" r ?n]
    by (simp add: visits_state_def)
  then show ?thesis
    using True by (simp add: step_def visits_state_def cnt map_update)
qed

lemma visits_run:
  assumes "ids_ok d" "codes_unique d" "u \<in> set (docs d)"
  shows "run schedule (visits_state r d u ps) =
           visits_state r d u (map (\<lambda>j. ps ! j + count_list schedule j) [0..<length ps])"
proof (induction schedule arbitrary: ps)
  case Nil
  then show ?case by (simp add: map_nth)
next
  case (Cons i schedule)
  let ?ps = "if i < length ps then ps[i := Suc (ps ! i)] else ps"
  have len: "length ?ps = length ps" by simp
  have "run (i # schedule) (visits_state r d u ps) = run schedule (visits_state r d u ?ps)"
    by (simp add: visits_step[OF assms])
  also have "\<dots> = visits_state r d u
      (map (\<lambda>j. ?ps ! j + count_list schedule j) [0..<length ?ps])"
    by (rule Cons.IH)
  also have "map (\<lambda>j. ?ps ! j + count_list schedule j) [0..<length ?ps] =
             map (\<lambda>j. ps ! j + count_list (i # schedule) j) [0..<length ps]"
    unfolding len by (rule map_cong) (auto simp: nth_list_update)
  finally show ?case .
qed

lemma is_done_visit_task: "is_done (visit_task u p) = (3 \<le> p)"
  by (simp add: visit_task_def)

lemma visits_initial:
  assumes "pool w = replicate K (Start (Visit_req (shortUrl u)))" and "store w = d"
  shows "w = visits_state (random w) d u (replicate K 0)"
proof -
  have "map (visit_task u) (replicate K 0) = replicate K (Start (Visit_req (shortUrl u)))"
    by (simp add: visit_task_def)
  with assms show ?thesis by (cases w) (simp add: visits_state_def)
qed

text \<open>
  Claim C9. In a collection with unique ids and unique short codes, let \<open>K\<close> visits of
  the short code of the document \<open>u\<close> be in flight, and let them take their steps
  (start, lookup, increment) in any order. At every moment the collection is the
  original one with as many clicks added to \<open>u\<close> as visits are done, and a visit is done
  as soon as it has taken three steps. So once every visit has taken its three steps,
  every one has redirected to \<open>u\<close>'s target and \<open>u\<close> has exactly \<open>K\<close> clicks more,
  whatever the interleaving: the increment is one store operation that does not
  depend on the click count read by the lookup.
\<close>

theorem concurrent_visits_all_counted:
  assumes "ids_ok d" and "codes_unique d" and "u \<in> set (docs d)"
    and "pool w = replicate K (Start (Visit_req (shortUrl u)))" and "store w = d"
  shows "docs (store (run schedule w)) =
           add_clicks (doc_id u) (length (filter is_done (pool (run schedule w)))) (docs d) \<and>
         length (filter is_done (pool (run schedule w))) =
           length (filter (\<lambda>j. 3 \<le> count_list schedule j) [0..<K]) \<and>
         ((\<forall>j < K. 3 \<le> count_list schedule j) \<longrightarrow>
            pool (run schedule w) = replicate K (Done (Redirect (fullUrl u))) \<and>
            docs (store (run schedule w)) = add_clicks (doc_id u) K (docs d))"
proof -
  let ?ps = "map (count_list schedule) [0..<K]"
  have "run schedule w = run schedule (visits_state (random w) d u (replicate K 0))"
    using visits_initial[OF assms(4,5)] by simp
  also have "\<dots> = visits_state (random w) d u
      (map (\<lambda>j. replicate K 0 ! j + count_list schedule j)
        [0..<length (replicate K (0::nat))])"
    by (rule visits_run[OF assms(1-3)])
  also have "map (\<lambda>j. replicate K 0 ! j + count_list schedule j)
        [0..<length (replicate K (0::nat))] =
      ?ps"
    by (rule map_cong) simp_all
  finally have fin: "run schedule w = visits_state (random w) d u ?ps" .
  have cnt: "length (filter is_done (pool (run schedule w))) =
      length (filter (\<lambda>j. 3 \<le> count_list schedule j) [0..<K])"
    unfolding fin
    by (simp add: visits_state_def filter_map comp_def is_done_visit_task)
  have dcs: "docs (store (run schedule w)) =
      add_clicks (doc_id u) (length (filter (\<lambda>j. 3 \<le> count_list schedule j) [0..<K])) (docs d)"
    unfolding fin by (simp add: visits_state_def filter_map comp_def)
  have all: "pool (run schedule w) = replicate K (Done (Redirect (fullUrl u))) \<and>
      docs (store (run schedule w)) = add_clicks (doc_id u) K (docs d)"
    if a: "\<forall>j < K. 3 \<le> count_list schedule j"
  proof
    have "map (\<lambda>j. visit_task u (count_list schedule j)) [0..<K] =
          map (\<lambda>j. Done (Redirect (fullUrl u))) [0..<K]"
      using a by (intro map_cong) (auto simp: visit_task_def)
    then show "pool (run schedule w) = replicate K (Done (Redirect (fullUrl u)))"
      unfolding fin by (simp add: visits_state_def comp_def map_replicate_const)
    have "filter (\<lambda>j. 3 \<le> count_list schedule j) [0..<K] = [0..<K]"
      using a by (simp add: filter_id_conv)
    then show "docs (store (run schedule w)) = add_clicks (doc_id u) K (docs d)"
      by (simp add: dcs)
  qed
  from cnt dcs all show ?thesis by simp
qed

theorem concurrent_visits_all_counted_witness:
  "pool (run [0, 1, 0, 1, 1, 0]
     \<lparr>random = \<lambda>n. 0,
      store = \<lparr>docs = [\<lparr>doc_id = 0, fullUrl = ''http://a.example'', shortUrl = ''AAAAAA'',
                        user = 1, clicks = 3, createdAt = 0\<rparr>,
                      \<lparr>doc_id = 1, fullUrl = ''http://b.example'', shortUrl = ''promo'',
                        user = 2, clicks = 8, createdAt = 4\<rparr>], next_id = 2\<rparr>,
      pool = [Start (Visit_req ''promo''), Start (Visit_req ''promo'')]\<rparr>) =
     [Done (Redirect ''http://b.example''), Done (Redirect ''http://b.example'')] \<and>
   docs (store (run [0, 1, 0, 1, 1, 0]
     \<lparr>random = \<lambda>n. 0,
      store = \<lparr>docs = [\<lparr>doc_id = 0, fullUrl = ''http://a.example'', shortUrl = ''AAAAAA'',
                        user = 1, clicks = 3, createdAt = 0\<rparr>,
                      \<lparr>doc_id = 1, fullUrl = ''http://b.example'', shortUrl = ''promo'',
                        user = 2, clicks = 8, createdAt = 4\<rparr>], next_id = 2\<rparr>,
      pool = [Start (Visit_req ''promo''), Start (Visit_req ''promo'')]\<rparr>)) =
     [\<lparr>doc_id = 0, fullUrl = ''http://a.example'', shortUrl = ''AAAAAA'',
       user = 1, clicks = 3, createdAt = 0\<rparr>,
      \<lparr>doc_id = 1, fullUrl = ''http://b.example'', shortUrl = ''promo'',
       user = 2, clicks = 10, createdAt = 4\<rparr>]"
proof -
  let ?a = "\<lparr>doc_id = 0, fullUrl = ''http://a.example'', shortUrl = ''AAAAAA'',
             user = 1, clicks = 3, createdAt = 0\<rparr>"
  let ?b = "\<lparr>doc_id = 1, fullUrl = ''http://b.example'', shortUrl = ''promo'',
             user = 2, clicks = 8, createdAt = 4\<rparr>"
  let ?d = "\<lparr>docs = [?a, ?b], next_id = 2\<rparr>"
  let ?w = "\<lparr>random = \<lambda>n. 0 :: real, store = ?d,
             pool = [Start (Visit_req ''promo''), Start (Visit_req ''promo'')]\<rparr>"
  let ?s = "[0, 1, 0, 1, 1, 0] :: nat list"
  have ids: "ids_ok ?d" by (simp add: ids_ok_def)
  have codes: "codes_unique ?d" by (simp add: codes_unique_def)
  have mem: "?b \<in> set (docs ?d)" by simp
  have p: "pool ?w = replicate 2 (Start (Visit_req (shortUrl ?b)))"
    by (simp add: numeral_2_eq_2)
  have st: "store ?w = ?d" by simp
  have fair: "\<forall>j < 2. 3 \<le> count_list ?s j"
    by (auto simp: less_Suc_eq numeral_2_eq_2)
  note T = concurrent_visits_all_counted [OF ids codes mem p st, where schedule = ?s,
             THEN conjunct2, THEN conjunct2, THEN mp, OF fair]
  have rep: "replicate 2 (Done (Redirect (fullUrl ?b))) =
      [Done (Redirect ''http://b.example''), Done (Redirect ''http://b.example'')]"
    by (simp add: numeral_2_eq_2)
  have add: "add_clicks (doc_id ?b) 2 (docs ?d) =
      [?a, \<lparr>doc_id = 1, fullUrl = ''http://b.example'', shortUrl = ''promo'',
             user = 2, clicks = 10, createdAt = 4\<rparr>]"
    by simp
  show ?thesis
    by (rule conjI[OF trans[OF T[THEN conjunct1] rep] trans[OF T[THEN conjunct2] add]])
qed

section \<open>A link stays until its owner deletes it\<close>

lemma find_inc_clicks:
  "map_option (\<lambda>v. (fullUrl v, doc_id v, user v)) (find (\<lambda>v. shortUrl v = c) (inc_clicks j us)) =
   map_option (\<lambda>v. (fullUrl v, doc_id v, user v)) (find (\<lambda>v. shortUrl v = c) us)"
  by (induction us) auto

lemma find_delete_first:
  "find P us = Some w \<Longrightarrow> \<not> (doc_id w = j \<and> user w = v) \<Longrightarrow>
   find P (delete_first j v us) = Some w"
  by (induction us) (auto split: if_splits)

lemma links_redirect: "links d code full i uid \<Longrightarrow> fst (redirect d code) = Redirect full"
  by (auto simp: links_def redirect_def split: option.splits)

lemma links_inc: "links d code full i uid \<Longrightarrow> links (Url_findByIdAndUpdate_inc d j) code full i uid"
  by (simp add: links_def Url_findOne_def Url_findByIdAndUpdate_inc_def find_inc_clicks)

lemma links_delete:
  assumes "links d code full i uid" "\<not> (j = i \<and> v = uid)"
  shows "links (Url_findOneAndDelete d j v) code full i uid"
proof -
  from assms(1) obtain w where w: "find (\<lambda>u. shortUrl u = code) (docs d) = Some w"
    "fullUrl w = full" "doc_id w = i" "user w = uid"
    by (auto simp: links_def Url_findOne_def)
  with assms(2) have "\<not> (doc_id w = j \<and> user w = v)" by auto
  from find_delete_first[OF w(1) this] w(2-4) show ?thesis
    by (simp add: links_def Url_findOne_def Url_findOneAndDelete_def)
qed

lemma links_create:
  assumes "links d code full i uid"
  shows "links (snd (create_and_redirect d now f short u)) code full i uid"
proof (cases rule: create_and_redirect_cases[of d short now f u])
  case duplicate
  with assms show ?thesis by simp
next
  case created
  from assms obtain w where "Url_findOne d code = Some w" by (auto simp: links_def)
  then have "Url_findOne (insert_doc d (new_doc d now f short u)) code = Url_findOne d code"
    by (simp add: findOne_insert_doc)
  with assms created show ?thesis by (simp add: links_def)
qed

lemma task_step_links:
  assumes "task_step t (r, d) = (t', r', d')" "links d code full i uid" "\<not> deletes i uid t"
  shows "links d' code full i uid \<and> \<not> deletes i uid t'"
proof (cases t)
  case (Start req)
  with assms show ?thesis
    by (cases req) (auto split: option.splits if_splits)
next
  case (Await_findOne_custom now f short u)
  with assms show ?thesis by (auto split: if_splits)
next
  case (Await_findOne_random now f short attempts u)
  with assms show ?thesis by (auto split: if_splits)
next
  case (Await_create now f short u)
  with assms links_create[OF assms(2), of now f short u] show ?thesis by auto
next
  case (Await_findOne_visit short)
  with assms show ?thesis by (auto split: option.splits)
next
  case (Await_inc j f)
  with assms links_inc[OF assms(2), of j] show ?thesis by auto
next
  case (Await_delete j v)
  with assms(3) have "\<not> (j = i \<and> v = uid)" by simp
  from links_delete[OF assms(2) this] Await_delete assms(1) show ?thesis by auto
next
  case (Await_find u)
  with assms show ?thesis by auto
next
  case (Done resp)
  with assms show ?thesis by auto
qed

lemma step_links:
  assumes "links (store w) code full i uid" "list_all (\<lambda>t. \<not> deletes i uid t) (pool w)"
  shows "links (store (step j w)) code full i uid \<and>
         list_all (\<lambda>t. \<not> deletes i uid t) (pool (step j w))"
proof (cases "j < length (pool w)")
  case False
  with assms show ?thesis by (simp add: step_def)
next
  case True
  obtain t r' d' where ts: "task_step (pool w ! j) (random w, store w) = (t, r', d')"
    by (cases "task_step (pool w ! j) (random w, store w)") auto
  from True assms(2) have "\<not> deletes i uid (pool w ! j)" by (simp add: list_all_length)
  from task_step_links[OF ts assms(1) this]
  have a: "links d' code full i uid" "\<not> deletes i uid t" by simp_all
  have "list_all (\<lambda>t. \<not> deletes i uid t) ((pool w)[j := t])"
    using assms(2) a(2) by (auto simp: list_all_iff dest!: set_update_subset_insert[THEN subsetD])
  with a(1) True ts show ?thesis by (simp add: step_def)
qed

lemma run_links:
  "links (store w) code full i uid \<Longrightarrow> list_all (\<lambda>t. \<not> deletes i uid t) (pool w) \<Longrightarrow>
   links (store (run schedule w)) code full i uid"
proof (induction schedule arbitrary: w)
  case Nil
  then show ?case by simp
next
  case (Cons j schedule)
  from step_links[OF Cons.prems, of j] show ?case by (simp add: Cons.IH)
qed

lemma run_alone_links:
  "run_alone n (t, r, d) = (t', r', d') \<Longrightarrow> links d code full i uid \<Longrightarrow>
   \<not> deletes i uid t \<Longrightarrow> links d' code full i uid"
proof (induction n arbitrary: t r d)
  case 0
  then show ?case by simp
next
  case (Suc n)
  obtain t1 r1 d1 where ts: "task_step t (r, d) = (t1, r1, d1)"
    by (cases "task_step t (r, d)") auto
  with Suc.prems(1) have ra: "run_alone n (t1, r1, d1) = (t', r', d')" by simp
  from task_step_links[OF ts Suc.prems(2,3)] Suc.IH[OF ra] show ?case by simp
qed

lemma handle_links:
  assumes "links d code full i uid" "req \<noteq> Delete_req i uid"
  shows "links (snd (snd (handle req (r, d)))) code full i uid"
proof -
  have ra: "run_alone 7 (Start req, r, d) =
      (Done (fst (handle req (r, d))), fst (snd (handle req (r, d))),
       snd (snd (handle req (r, d))))"
    by (simp add: run_alone_handle)
  have "\<not> deletes i uid (Start req)" using assms(2) by (cases req) auto
  from run_alone_links[OF ra assms(1) this] show ?thesis .
qed

lemma handle_all_links:
  "links d code full i uid \<Longrightarrow> Delete_req i uid \<notin> set reqs \<Longrightarrow>
   links (snd (handle_all reqs (r, d))) code full i uid"
proof (induction reqs arbitrary: r d)
  case Nil
  then show ?case by simp
next
  case (Cons req reqs)
  from Cons.prems have ne: "req \<noteq> Delete_req i uid" and rest: "Delete_req i uid \<notin> set reqs"
    by auto
  obtain resp r1 d1 where h: "handle req (r, d) = (resp, r1, d1)"
    by (cases "handle req (r, d)") auto
  from handle_links[OF Cons.prems(1) ne, of r] h have "links d1 code full i uid" by simp
  from Cons.IH[OF this rest, of r1] h show ?case by simp
qed

lemma links_new_doc:
  "Url_findOne d short = None \<Longrightarrow>
   links (insert_doc d (new_doc d now full short uid)) short full (next_id d) uid"
  by (simp add: links_def findOne_insert_doc new_doc_def)

section \<open>The round trip of a generated code\<close>

text \<open>
  Claim C8. The alphabet has 62 different characters. With a target that is not empty
  and no custom alias (absent or blank), \<^verbatim>\<open>POST /shorten\<close> does not always return
  a code: when the first five candidates are all taken it answers "Could not generate
  unique short URL, try again" and creates nothing. In every other case it creates a
  document whose short code is the first free candidate, has exactly six characters,
  all of the alphabet; \<^verbatim>\<open>GET /:short\<close> on that code redirects to the target given
  and counts the click on the new document; and it still redirects to that target
  after any list of further requests, and after any schedule of requests in flight,
  among which there is no delete of the new document by its owner.
\<close>

theorem random_code_shape_and_round_trip:
  assumes "rng_ok r" and "full \<noteq> []" and "custom_alias custom = None"
  shows "distinct chars \<and> length chars = 62 \<and>
    (((\<forall>k < 5. Url_findOne d (candidate r k) \<noteq> None) \<and>
      shorten now r d (Some full) custom uid =
        (Send ''Could not generate unique short URL, try again'', skip 30 r, d)) \<or>
     (\<exists>k < 5.
        (\<forall>j < k. Url_findOne d (candidate r j) \<noteq> None) \<and>
        Url_findOne d (candidate r k) = None \<and>
        shorten now r d (Some full) custom uid =
          (Redirect ''/dashboard'', skip (6 * (k + 1)) r,
           insert_doc d (new_doc d now full (candidate r k) uid)) \<and>
        length (candidate r k) = 6 \<and> set (candidate r k) \<subseteq> set chars \<and>
        redirect (insert_doc d (new_doc d now full (candidate r k) uid)) (candidate r k) =
          (Redirect full,
           Url_findByIdAndUpdate_inc (insert_doc d (new_doc d now full (candidate r k) uid))
             (next_id d)) \<and>
        (\<forall>reqs r1.
           Delete_req (next_id d) uid \<notin> set reqs \<longrightarrow>
           fst (redirect
                  (snd (handle_all reqs
                          (r1, insert_doc d (new_doc d now full (candidate r k) uid))))
                  (candidate r k)) = Redirect full) \<and>
        (\<forall>w schedule.
           store w = insert_doc d (new_doc d now full (candidate r k) uid) \<longrightarrow>
           list_all (\<lambda>t. \<not> deletes (next_id d) uid t) (pool w) \<longrightarrow>
           fst (redirect (store (run schedule w)) (candidate r k)) = Redirect full)))"
proof -
  have "((\<forall>k < 5. Url_findOne d (candidate r k) \<noteq> None) \<and>
      shorten now r d (Some full) custom uid =
        (Send ''Could not generate unique short URL, try again'', skip 30 r, d)) \<or>
     (\<exists>k < 5.
        (\<forall>j < k. Url_findOne d (candidate r j) \<noteq> None) \<and>
        Url_findOne d (candidate r k) = None \<and>
        shorten now r d (Some full) custom uid =
          (Redirect ''/dashboard'', skip (6 * (k + 1)) r,
           insert_doc d (new_doc d now full (candidate r k) uid)) \<and>
        length (candidate r k) = 6 \<and> set (candidate r k) \<subseteq> set chars \<and>
        redirect (insert_doc d (new_doc d now full (candidate r k) uid)) (candidate r k) =
          (Redirect full,
           Url_findByIdAndUpdate_inc (insert_doc d (new_doc d now full (candidate r k) uid))
             (next_id d)) \<and>
        (\<forall>reqs r1.
           Delete_req (next_id d) uid \<notin> set reqs \<longrightarrow>
           fst (redirect
                  (snd (handle_all reqs
                          (r1, insert_doc d (new_doc d now full (candidate r k) uid))))
                  (candidate r k)) = Redirect full) \<and>
        (\<forall>w schedule.
           store w = insert_doc d (new_doc d now full (candidate r k) uid) \<longrightarrow>
           list_all (\<lambda>t. \<not> deletes (next_id d) uid t) (pool w) \<longrightarrow>
           fst (redirect (store (run schedule w)) (candidate r k)) = Redirect full))"
  proof (cases rule: generate_until_unique_cases[of d r])
    case taken
    with shorten_random_taken[OF assms(2,3) taken, of now uid] show ?thesis by blast
  next
    case (free k)
    let ?c = "candidate r k"
    let ?u = "new_doc d now full ?c uid"
    let ?d' = "insert_doc d ?u"
    have l: "links ?d' ?c full (next_id d) uid"
      using free(3) by (rule links_new_doc)
    have f: "Url_findOne ?d' ?c = Some ?u"
      using free(3) by (simp add: findOne_insert_doc)
    have once: "redirect ?d' ?c = (Redirect full, Url_findByIdAndUpdate_inc ?d' (next_id d))"
      by (simp add: redirect_def f)
    have seq: "fst (redirect (snd (handle_all reqs (r1, ?d'))) ?c) = Redirect full"
      if "Delete_req (next_id d) uid \<notin> set reqs" for reqs r1
      using handle_all_links[OF l that, of r1] by (rule links_redirect)
    have conc: "fst (redirect (store (run schedule w)) ?c) = Redirect full"
      if "store w = ?d'" "list_all (\<lambda>t. \<not> deletes (next_id d) uid t) (pool w)"
      for w schedule
    proof -
      from l that(1) have "links (store w) ?c full (next_id d) uid" by simp
      from run_links[OF this that(2), of schedule] show ?thesis by (rule links_redirect)
    qed
    note sh = shorten_random_free[OF assms(2,3) free, of now uid]
    note shape = candidate_shape[OF assms(1), of k]
    have "(\<forall>j < k. Url_findOne d (candidate r j) \<noteq> None) \<and>
        Url_findOne d ?c = None \<and>
        shorten now r d (Some full) custom uid =
          (Redirect ''/dashboard'', skip (6 * (k + 1)) r, ?d') \<and>
        length ?c = 6 \<and> set ?c \<subseteq> set chars \<and>
        redirect ?d' ?c = (Redirect full, Url_findByIdAndUpdate_inc ?d' (next_id d)) \<and>
        (\<forall>reqs r1.
           Delete_req (next_id d) uid \<notin> set reqs \<longrightarrow>
           fst (redirect (snd (handle_all reqs (r1, ?d'))) ?c) = Redirect full) \<and>
        (\<forall>w schedule.
           store w = ?d' \<longrightarrow>
           list_all (\<lambda>t. \<not> deletes (next_id d) uid t) (pool w) \<longrightarrow>
           fst (redirect (store (run schedule w)) ?c) = Redirect full)"
      using free(2,3) sh shape once seq conc by (intro conjI allI impI) simp_all
    with free(1) show ?thesis by blast
  qed
  with distinct_chars show ?thesis by simp
qed

theorem random_code_shape_and_round_trip_witness:
  "rng_ok (\<lambda>n. 1 / 2) \<and> custom_alias (Some '' '') = None \<and>
   shorten 3 (\<lambda>n. 1 / 2) empty_db (Some ''http://example.com'') (Some '' '') 7 =
     (Redirect ''/dashboard'', \<lambda>n. 1 / 2,
      \<lparr>docs = [\<lparr>doc_id = 0, fullUrl = ''http://example.com'', shortUrl = ''ffffff'',
                user = 7, clicks = 0, createdAt = 3\<rparr>], next_id = 1\<rparr>) \<and>
   fst (redirect
          \<lparr>docs = [\<lparr>doc_id = 0, fullUrl = ''http://example.com'', shortUrl = ''ffffff'',
                    user = 7, clicks = 0, createdAt = 3\<rparr>], next_id = 1\<rparr>
          ''ffffff'') = Redirect ''http://example.com'' \<and>
   fst (redirect
          (snd (handle_all
                  [Shorten_req 4 (Some ''http://b.example'') (Some ''promo'') 8,
                   Visit_req ''ffffff'', Delete_req 0 8, Visit_req ''promo'']
                  (\<lambda>n. 0,
                   \<lparr>docs = [\<lparr>doc_id = 0, fullUrl = ''http://example.com'',
                             shortUrl = ''ffffff'', user = 7, clicks = 0, createdAt = 3\<rparr>],
                    next_id = 1\<rparr>)))
          ''ffffff'') = Redirect ''http://example.com''"
proof -
  let ?r = "\<lambda>n::nat. 1 / 2 :: real"
  let ?d' = "\<lparr>docs = [\<lparr>doc_id = 0, fullUrl = ''http://example.com'', shortUrl = ''ffffff'',
                user = 7, clicks = 0, createdAt = 3\<rparr>], next_id = 1\<rparr>"
  let ?reqs = "[Shorten_req 4 (Some ''http://b.example'') (Some ''promo'') 8,
                Visit_req ''ffffff'', Delete_req 0 8, Visit_req ''promo'']"
  have ok: "rng_ok ?r" by (simp add: rng_ok_def is_double_def to_double_half)
  have full: "''http://example.com'' \<noteq> []" by simp
  have none: "custom_alias (Some '' '') = None"
    by (simp add: custom_alias_def trim_def is_ws_def whitespace_def)
  have c: "candidate ?r k = ''ffffff''" for k
    by (simp add: candidate_def skip_def generateCode_eq upt_0_6 pick_def charAt_def
        chars_def to_double_0 to_double_31)
  have sk: "skip m ?r = ?r" for m by (simp add: skip_def)
  have ins: "insert_doc empty_db (new_doc empty_db 3 ''http://example.com'' ''ffffff'' 7) = ?d'"
    by (simp add: insert_doc_def new_doc_def empty_db_def)
  have nx: "next_id empty_db = 0" by (simp add: empty_db_def)
  have free: "\<not> (\<forall>k < 5. Url_findOne empty_db (candidate ?r k) \<noteq> None)"
  proof
    assume "\<forall>k < 5. Url_findOne empty_db (candidate ?r k) \<noteq> None"
    then have "Url_findOne empty_db (candidate ?r 0) \<noteq> None" by simp
    then show False by (simp add: Url_findOne_def empty_db_def)
  qed
  have keep: "Delete_req 0 7 \<notin> set ?reqs" by simp
  note T = random_code_shape_and_round_trip
             [OF ok full none, where now = 3 and d = empty_db and uid = 7,
              THEN conjunct2, THEN conjunct2, unfolded c sk ins nx]
  from T have "\<exists>k < (5::nat).
      shorten 3 ?r empty_db (Some ''http://example.com'') (Some '' '') 7 =
        (Redirect ''/dashboard'', ?r, ?d') \<and>
      fst (redirect ?d' ''ffffff'') = Redirect ''http://example.com'' \<and>
      fst (redirect (snd (handle_all ?reqs (\<lambda>n. 0, ?d'))) ''ffffff'') =
        Redirect ''http://example.com''"
  proof (rule disjE)
    assume "(\<forall>k < (5::nat). Url_findOne empty_db ''ffffff'' \<noteq> None) \<and>
      shorten 3 ?r empty_db (Some ''http://example.com'') (Some '' '') 7 =
        (Send ''Could not generate unique short URL, try again'', ?r, empty_db)"
    then have "\<forall>k < (5::nat). Url_findOne empty_db ''ffffff'' \<noteq> None" by (rule conjunct1)
    with free [unfolded c] show ?thesis by (rule notE)
  next
    assume "\<exists>k < (5::nat).
        (\<forall>j < k. Url_findOne empty_db ''ffffff'' \<noteq> None) \<and>
        Url_findOne empty_db ''ffffff'' = None \<and>
        shorten 3 ?r empty_db (Some ''http://example.com'') (Some '' '') 7 =
          (Redirect ''/dashboard'', ?r, ?d') \<and>
        length ''ffffff'' = 6 \<and> set ''ffffff'' \<subseteq> set chars \<and>
        redirect ?d' ''ffffff'' =
          (Redirect ''http://example.com'', Url_findByIdAndUpdate_inc ?d' 0) \<and>
        (\<forall>reqs r1.
           Delete_req 0 7 \<notin> set reqs \<longrightarrow>
           fst (redirect (snd (handle_all reqs (r1, ?d'))) ''ffffff'') =
             Redirect ''http://example.com'') \<and>
        (\<forall>w schedule.
           store w = ?d' \<longrightarrow>
           list_all (\<lambda>t. \<not> deletes 0 7 t) (pool w) \<longrightarrow>
           fst (redirect (store (run schedule w)) ''ffffff'') = Redirect ''http://example.com'')"
    then obtain k where k: "k < (5::nat)"
      and sh: "shorten 3 ?r empty_db (Some ''http://example.com'') (Some '' '') 7 =
          (Redirect ''/dashboard'', ?r, ?d')"
      and once: "redirect ?d' ''ffffff'' =
          (Redirect ''http://example.com'', Url_findByIdAndUpdate_inc ?d' 0)"
      and later: "\<forall>reqs r1.
           Delete_req 0 7 \<notin> set reqs \<longrightarrow>
           fst (redirect (snd (handle_all reqs (r1, ?d'))) ''ffffff'') =
             Redirect ''http://example.com''"
      by blast
    from once have "fst (redirect ?d' ''ffffff'') = Redirect ''http://example.com''"
      by (simp only: fst_conv)
    moreover from later keep
    have "fst (redirect (snd (handle_all ?reqs (\<lambda>n. 0, ?d'))) ''ffffff'') =
        Redirect ''http://example.com''"
      by blast
    ultimately show ?thesis using k sh by blast
  qed
  then have "shorten 3 ?r empty_db (Some ''http://example.com'') (Some '' '') 7 =
        (Redirect ''/dashboard'', ?r, ?d') \<and>
      fst (redirect ?d' ''ffffff'') = Redirect ''http://example.com'' \<and>
      fst (redirect (snd (handle_all ?reqs (\<lambda>n. 0, ?d'))) ''ffffff'') =
        Redirect ''http://example.com''"
    by blast
  with ok none show ?thesis by blast
qed

text \<open>
  The claim as it was stated, that the random path returns a code for every valid
  target, fails where the generator repeats a code that is taken: the five candidates
  are all \<open>AAAAAA\<close>, and the handler answers the exhaustion message and creates
  nothing.
\<close>

theorem random_path_can_end_without_code:
  "rng_ok (\<lambda>n. 0) \<and> custom_alias None = None \<and>
   shorten 3 (\<lambda>n. 0)
     \<lparr>docs = [\<lparr>doc_id = 0, fullUrl = ''http://a.example'', shortUrl = ''AAAAAA'', user = 1,
               clicks = 0, createdAt = 0\<rparr>], next_id = 1\<rparr>
     (Some ''http://example.com'') None 7 =
   (Send ''Could not generate unique short URL, try again'', skip 30 (\<lambda>n. 0),
    \<lparr>docs = [\<lparr>doc_id = 0, fullUrl = ''http://a.example'', shortUrl = ''AAAAAA'', user = 1,
               clicks = 0, createdAt = 0\<rparr>], next_id = 1\<rparr>)"
proof -
  let ?d = "\<lparr>docs = [\<lparr>doc_id = 0, fullUrl = ''http://a.example'', shortUrl = ''AAAAAA'',
               user = 1, clicks = 0, createdAt = 0\<rparr>], next_id = 1\<rparr>"
  have ok: "rng_ok (\<lambda>n. 0)" by (simp add: rng_ok_def is_double_def to_double_0)
  have full: "''http://example.com'' \<noteq> []" by simp
  have none: "custom_alias None = None" by (rule custom_alias_None)
  have c0: "candidate (\<lambda>n. 0) k = ''AAAAAA''" for k
    by (simp add: candidate_def skip_def generateCode_eq upt_0_6 pick_def charAt_def
        chars_def to_double_0)
  have taken: "\<forall>k < 5. Url_findOne ?d (candidate (\<lambda>n. 0) k) \<noteq> None"
    by (simp add: c0 Url_findOne_def)
  have "shorten 3 (\<lambda>n. 0) ?d (Some ''http://example.com'') None 7 =
      (Send ''Could not generate unique short URL, try again'', skip 30 (\<lambda>n. 0), ?d)"
    by (rule shorten_random_taken[OF full none taken])
  with ok none show ?thesis by blast
qed


end
